theory Spec2Isabelle
  imports Complex_Main "HOL-Library.Word"
begin

section \<open>JavaScript strings\<close>

text \<open>
  A JavaScript string is a sequence of UTF-16 code units. String literals of the source
  are written with \<open>js\<close>, which maps an ASCII literal to its code units; the few
  non-ASCII letters of the user-facing messages are given by their code unit.
\<close>

type_synonym jsstr = "16 word list"

definition js :: "string \<Rightarrow> jsstr" where
  "js s = map (\<lambda>c. of_nat (of_char c)) s"

text \<open>\<open>String.prototype.startsWith\<close>, \<open>endsWith\<close> and \<open>includes\<close> (here \<open>includes'\<close>).\<close>

definition startsWith :: "jsstr \<Rightarrow> jsstr \<Rightarrow> bool" where
  "startsWith s p \<longleftrightarrow> take (length p) s = p"

definition endsWith :: "jsstr \<Rightarrow> jsstr \<Rightarrow> bool" where
  "endsWith s p \<longleftrightarrow> length p \<le> length s \<and> drop (length s - length p) s = p"

fun includes' :: "jsstr \<Rightarrow> jsstr \<Rightarrow> bool" where
  "includes' [] p \<longleftrightarrow> p = []"
| "includes' (c # cs) p \<longleftrightarrow> startsWith (c # cs) p \<or> includes' cs p"

text \<open>The three tests say what they should: a prefix, a suffix, a substring.\<close>

lemma startsWith_iff: "startsWith s p \<longleftrightarrow> (\<exists>b. s = p @ b)"
  unfolding startsWith_def by (metis append_eq_conv_conj append_take_drop_id)

lemma endsWith_iff: "endsWith s p \<longleftrightarrow> (\<exists>a. s = a @ p)"
proof
  assume "endsWith s p"
  then have "s = take (length s - length p) s @ p"
    unfolding endsWith_def by (metis append_take_drop_id)
  then show "\<exists>a. s = a @ p" ..
next
  assume "\<exists>a. s = a @ p"
  then show "endsWith s p"
    by (auto simp: endsWith_def)
qed

lemma includes_iff: "includes' s p \<longleftrightarrow> (\<exists>a b. s = a @ p @ b)"
proof (induction s)
  case Nil
  show ?case by auto
next
  case (Cons c cs)
  have "(\<exists>a b. c # cs = a @ p @ b) \<longleftrightarrow> (\<exists>b. c # cs = p @ b) \<or> (\<exists>a b. cs = a @ p @ b)"
  proof
    assume "\<exists>a b. c # cs = a @ p @ b"
    then obtain a b where ab: "c # cs = a @ p @ b" by blast
    show "(\<exists>b. c # cs = p @ b) \<or> (\<exists>a b. cs = a @ p @ b)"
    proof (cases a)
      case Nil
      then show ?thesis using ab by auto
    next
      case (Cons x a')
      then have "cs = a' @ p @ b" using ab by simp
      then show ?thesis by blast
    qed
  next
    assume "(\<exists>b. c # cs = p @ b) \<or> (\<exists>a b. cs = a @ p @ b)"
    then show "\<exists>a b. c # cs = a @ p @ b"
    proof
      assume "\<exists>b. c # cs = p @ b"
      then show ?thesis by (metis append_Nil)
    next
      assume "\<exists>a b. cs = a @ p @ b"
      then obtain a b where "cs = a @ p @ b" by blast
      then have "c # cs = (c # a) @ p @ b" by simp
      then show ?thesis by blast
    qed
  qed
  then show ?case
    using Cons.IH by (simp add: startsWith_iff)
qed

section \<open>Favorites (App.tsx)\<close>

text \<open>
  The record \<open>Quote\<close> of the application: an identifier, the quote text, the author and
  the image URL. The field \<open>id\<close> of the source is \<open>id'\<close> here.
\<close>

record Quote =
  id' :: jsstr
  quote :: jsstr
  author :: jsstr
  imageUrl :: jsstr

text \<open>
  \<open>toggleFavorite\<close> passes an updater to \<open>setFavorites\<close>; the model is that updater,
  from the toggled quote and the previous list to the next list. \<open>prev.some\<close> is
  \<open>list_ex\<close>, \<open>prev.filter\<close> is \<open>filter\<close>, and \<open>===\<close> on two strings is equality.
\<close>

definition toggleFavorite :: "Quote \<Rightarrow> Quote list \<Rightarrow> Quote list" where
  "toggleFavorite q prev =
     (let exists = list_ex (\<lambda>fav. quote fav = quote q) prev
      in if exists then filter (\<lambda>fav. quote fav \<noteq> quote q) prev
         else q # prev)"

text \<open>\<open>isQuoteFavorite\<close>, on the current list.\<close>

definition isQuoteFavorite :: "Quote list \<Rightarrow> jsstr \<Rightarrow> bool" where
  "isQuoteFavorite favorites quoteText = list_ex (\<lambda>fav. quote fav = quoteText) favorites"

subsection \<open>Toggling\<close>

lemma filter_other_absent:
  "\<not> list_ex (\<lambda>fav. quote fav = t) prev \<Longrightarrow> filter (\<lambda>fav. quote fav \<noteq> t) prev = prev"
  by (induction prev) auto

lemma not_ex_after_filter:
  "\<not> list_ex (\<lambda>fav. quote fav = t) (filter (\<lambda>fav. quote fav \<noteq> t) prev)"
  by (induction prev) auto

lemma toggle_present:
  "list_ex (\<lambda>fav. quote fav = quote q) prev \<Longrightarrow>
   toggleFavorite q prev = filter (\<lambda>fav. quote fav \<noteq> quote q) prev"
  by (simp add: toggleFavorite_def)

lemma toggle_absent:
  "\<not> list_ex (\<lambda>fav. quote fav = quote q) prev \<Longrightarrow> toggleFavorite q prev = q # prev"
  by (simp add: toggleFavorite_def)

text \<open>Two sample records, used where a statement is evaluated on a concrete list.\<close>

definition quoteA :: Quote where
  "quoteA = \<lparr>id' = js ''a1'', quote = js ''Know thyself'', author = js ''Socrates'',
             imageUrl = []\<rparr>"

definition quoteB :: Quote where
  "quoteB = \<lparr>id' = js ''b2'', quote = js ''Panta rhei'', author = js ''Heraclitus'',
             imageUrl = []\<rparr>"

text \<open>
  C3, as stated: toggling twice with the same quote gives back the original list, order
  included. It fails when the quote text is already in the list and not at its head:
  the first toggle removes the entry and the second one puts the quote in front.
\<close>

theorem toggleFavorite_twice_counterexample:
  "toggleFavorite quoteB (toggleFavorite quoteB [quoteA, quoteB]) = [quoteB, quoteA]
   \<and> [quoteB, quoteA] \<noteq> [quoteA, quoteB]"
  by (simp add: toggleFavorite_def quoteA_def quoteB_def js_def)

text \<open>
  C3, amended: toggling twice with the same quote gives back the original list when no
  entry has that quote text; when some entry has it, the result is the toggled quote
  followed by the entries with another text, in their order. In both cases the set of
  favorite quote texts is the original one.
\<close>

theorem toggleFavorite_twice:
  "toggleFavorite q (toggleFavorite q prev) =
     (if isQuoteFavorite prev (quote q)
      then q # filter (\<lambda>fav. quote fav \<noteq> quote q) prev
      else prev)
   \<and> quote ` set (toggleFavorite q (toggleFavorite q prev)) = quote ` set prev"
proof (cases "list_ex (\<lambda>fav. quote fav = quote q) prev")
  case True
  have "toggleFavorite q (toggleFavorite q prev) = q # filter (\<lambda>fav. quote fav \<noteq> quote q) prev"
    using True not_ex_after_filter [of "quote q" prev]
    by (simp add: toggle_present toggle_absent)
  moreover have "quote q \<in> quote ` set prev"
    using True by (auto simp: list_ex_iff intro: rev_image_eqI)
  then have "quote ` set (q # filter (\<lambda>fav. quote fav \<noteq> quote q) prev) = quote ` set prev"
    by auto
  ultimately show ?thesis
    using True by (simp add: isQuoteFavorite_def)
next
  case False
  have "toggleFavorite q (toggleFavorite q prev) = prev"
    using False filter_other_absent [of "quote q" prev]
    by (simp add: toggle_absent toggle_present)
  then show ?thesis
    using False by (simp add: isQuoteFavorite_def)
qed

theorem toggleFavorite_twice_witness:
  "toggleFavorite quoteB (toggleFavorite quoteB [quoteA]) = [quoteA]
   \<and> toggleFavorite quoteB (toggleFavorite quoteB [quoteA, quoteB]) = [quoteB, quoteA]"
  using toggleFavorite_twice [of quoteB "[quoteA]"]
    toggleFavorite_twice [of quoteB "[quoteA, quoteB]"]
  by (simp add: isQuoteFavorite_def quoteA_def quoteB_def js_def)

text \<open>
  C9: the entries whose quote text differs from the toggled one are the same before and
  after the toggle, in the same order; what is added or removed has the toggled text.
\<close>

theorem toggleFavorite_frame:
  "filter (\<lambda>fav. quote fav \<noteq> quote q) (toggleFavorite q prev) =
     filter (\<lambda>fav. quote fav \<noteq> quote q) prev
   \<and> (\<forall>fav. (fav \<in> set (toggleFavorite q prev)) \<noteq> (fav \<in> set prev)
          \<longrightarrow> quote fav = quote q)"
  by (auto simp: toggleFavorite_def Let_def)

theorem toggleFavorite_frame_witness:
  "filter (\<lambda>fav. quote fav \<noteq> quote quoteB) (toggleFavorite quoteB [quoteA, quoteB]) = [quoteA]
   \<and> filter (\<lambda>fav. quote fav \<noteq> quote quoteB) (toggleFavorite quoteB [quoteA]) = [quoteA]"
  using toggleFavorite_frame [of quoteB "[quoteA, quoteB]"]
    toggleFavorite_frame [of quoteB "[quoteA]"]
  by (simp add: quoteA_def quoteB_def js_def)

section \<open>JavaScript numbers\<close>

text \<open>
  A JavaScript number is a binary64 value: \<open>NaN\<close>, an infinity, or a finite value, here
  the real it stands for (the two zeros are one; none of the operations used below tells
  them apart). Arithmetic gives the double nearest to the exact result, ties going to
  the double with an even significand, and an infinity from \<open>2 ^ 1024\<close> on.
\<close>

datatype jsnum = NaN | PosInf | NegInf | Num real

text \<open>The nearest integer, the even one of two that are equally near.\<close>

definition roundHalfEven :: "real \<Rightarrow> int" where
  "roundHalfEven x =
     (let f = \<lfloor>x\<rfloor>; d = x - of_int f
      in if d < 1 / 2 then f else if 1 / 2 < d then f + 1 else if even f then f else f + 1)"

text \<open>
  Rounding a real to binary64: with \<open>e\<close> the binary exponent of \<open>x\<close>, at least \<open>-1022\<close>,
  the doubles near \<open>x\<close> are the multiples of \<open>2 ^ (e - 52)\<close>.
\<close>

definition round64 :: "real \<Rightarrow> jsnum" where
  "round64 x =
     (if x = 0 then Num 0
      else let e = max \<lfloor>log 2 \<bar>x\<bar>\<rfloor> (- 1022);
               ulp = 2 powr of_int (e - 52);
               y = of_int (roundHalfEven (x / ulp)) * ulp
           in if 2 ^ 1024 \<le> \<bar>y\<bar> then (if y < 0 then NegInf else PosInf) else Num y)"

text \<open>
  The three operations of the source on numbers: \<open>n > 0\<close>, \<open>n - 1\<close>, and \<open>n * k\<close> for a
  positive finite \<open>k\<close>.
\<close>

definition jsGreater0 :: "jsnum \<Rightarrow> bool" where
  "jsGreater0 n = (case n of Num x \<Rightarrow> 0 < x | PosInf \<Rightarrow> True | _ \<Rightarrow> False)"

definition jsMinus1 :: "jsnum \<Rightarrow> jsnum" where
  "jsMinus1 n = (case n of Num x \<Rightarrow> round64 (x - 1) | other \<Rightarrow> other)"

definition jsTimes :: "jsnum \<Rightarrow> real \<Rightarrow> jsnum" where
  "jsTimes n k = (case n of Num x \<Rightarrow> round64 (x * k) | other \<Rightarrow> other)"

text \<open>\<open>a < b\<close> on two numbers.\<close>

fun jsLess :: "jsnum \<Rightarrow> jsnum \<Rightarrow> bool" where
  "jsLess (Num x) (Num y) = (x < y)"
| "jsLess (Num x) PosInf = True"
| "jsLess NegInf (Num y) = True"
| "jsLess NegInf PosInf = True"
| "jsLess a b = False"

subsection \<open>Rounding\<close>

lemma floor_log2_eq:
  assumes "0 < x" and "2 powr of_int e \<le> x" and "x < 2 powr of_int (e + 1)"
  shows "\<lfloor>log 2 x\<rfloor> = e"
proof -
  have "of_int e \<le> log 2 x"
    using assms(1,2) by (simp add: le_log_iff)
  moreover have "log 2 x < of_int (e + 1)"
    using assms(1,3) by (simp add: log_less_iff)
  ultimately show ?thesis
    by (simp add: floor_eq_iff)
qed

lemma roundHalfEven_int: "roundHalfEven (of_int i) = i"
  by (simp add: roundHalfEven_def)

lemma roundHalfEven_bounds: "x - 1 / 2 \<le> of_int (roundHalfEven x)" "of_int (roundHalfEven x) \<le> x + 1 / 2"
  unfolding roundHalfEven_def Let_def by (auto; linarith)+

lemma round64_eq:
  assumes "x \<noteq> 0" and "ulp = 2 powr of_int (max \<lfloor>log 2 \<bar>x\<bar>\<rfloor> (- 1022) - 52)"
    and "y = of_int (roundHalfEven (x / ulp)) * ulp"
  shows "round64 x = (if 2 ^ 1024 \<le> \<bar>y\<bar> then (if y < 0 then NegInf else PosInf) else Num y)"
  unfolding round64_def Let_def assms(2,3) using assms(1) by simp

text \<open>The whole numbers below \<open>2 ^ 53\<close> are doubles.\<close>

lemma round64_nat:
  assumes "k < 2 ^ 53"
  shows "round64 (real k) = Num (real k)"
proof (cases "k = 0")
  case True
  then show ?thesis by (simp add: round64_def)
next
  case False
  define e where "e = \<lfloor>log 2 \<bar>real k\<bar>\<rfloor>"
  have pos: "1 \<le> real k" using False by simp
  have "0 \<le> log 2 (real k)"
    using pos by simp
  then have e0: "0 \<le> e"
    by (simp add: e_def)
  have "real k < 2 powr 53"
    using assms by (simp add: powr_realpow [symmetric] flip: of_nat_less_iff)
  then have "log 2 (real k) < 53"
    using pos by (simp add: log_less_iff)
  then have e52: "e \<le> 52"
    unfolding e_def by (simp add: floor_le_iff)
  define j where "j = nat (52 - e)"
  have ulp: "1 / 2 ^ j = (2::real) powr of_int (max e (- 1022) - 52)"
  proof -
    have "max e (- 1022) - 52 = - int j"
      using e0 e52 by (simp add: j_def)
    then show ?thesis
      by (simp add: powr_minus powr_realpow inverse_eq_divide)
  qed
  have "real k / (1 / 2 ^ j) = of_int (int k * 2 ^ j)"
    by simp
  then have r: "roundHalfEven (real k / (1 / 2 ^ j)) = int k * 2 ^ j"
    using roundHalfEven_int by metis
  have y: "real k = of_int (roundHalfEven (real k / (1 / 2 ^ j))) * (1 / 2 ^ j)"
    unfolding r by simp
  have big: "\<not> (2 ^ 1024 \<le> \<bar>real k\<bar>)"
  proof -
    have "real k < 2 ^ 53" using assms by (simp flip: of_nat_less_iff)
    also have "\<dots> < (2::real) ^ 1024" by simp
    finally show ?thesis by simp
  qed
  have "real k \<noteq> 0" using False by simp
  then have "round64 (real k) =
      (if 2 ^ 1024 \<le> \<bar>real k\<bar> then (if real k < 0 then NegInf else PosInf) else Num (real k))"
    using ulp [unfolded e_def] y by (rule round64_eq)
  then show ?thesis
    using big by (simp only: if_False)
qed


text \<open>What is not positive does not round to something positive.\<close>

lemma round64_nonpos:
  assumes "x \<le> 0"
  shows "\<not> jsGreater0 (round64 x)"
proof (cases "x = 0")
  case True
  then show ?thesis by (simp add: round64_def jsGreater0_def)
next
  case False
  define ulp :: real where "ulp = 2 powr of_int (max \<lfloor>log 2 \<bar>x\<bar>\<rfloor> (- 1022) - 52)"
  define y where "y = of_int (roundHalfEven (x / ulp)) * ulp"
  have up: "0 < ulp" by (simp add: ulp_def)
  have "x / ulp \<le> 0"
    using assms up by (simp add: divide_nonpos_pos)
  then have "real_of_int (roundHalfEven (x / ulp)) \<le> 1 / 2"
    using roundHalfEven_bounds(2) [of "x / ulp"] by linarith
  then have "roundHalfEven (x / ulp) \<le> 0"
    by linarith
  then have y0: "y \<le> 0"
    using up by (simp add: y_def mult_nonpos_nonneg)
  have "round64 x = (if 2 ^ 1024 \<le> \<bar>y\<bar> then (if y < 0 then NegInf else PosInf) else Num y)"
    using False ulp_def y_def by (rule round64_eq)
  then show ?thesis
    using y0 by (auto simp: jsGreater0_def)
qed

lemma jsMinus1_Suc: "n < 2 ^ 53 \<Longrightarrow> jsMinus1 (Num (real (Suc n))) = Num (real n)"
  using round64_nat [of n] by (simp add: jsMinus1_def)

lemma jsTimes_nat: "d * k < 2 ^ 53 \<Longrightarrow> jsTimes (Num (real d)) (real k) = Num (real (d * k))"
  using round64_nat [of "d * k"] by (simp add: jsTimes_def)

text \<open>Above \<open>2 ^ 53\<close> the doubles are two apart or more: \<open>2 ^ 54 - 1\<close> rounds back to \<open>2 ^ 54\<close>.\<close>

lemma round64_stuck: "round64 (2 ^ 54 - 1) = Num (2 ^ 54)"
proof -
  have e: "\<lfloor>log 2 \<bar>2 ^ 54 - 1 :: real\<bar>\<rfloor> = 53"
  proof -
    have "\<lfloor>log 2 (2 ^ 54 - 1 :: real)\<rfloor> = 53"
      by (rule floor_log2_eq) (simp_all add: powr_realpow [symmetric])
    then show ?thesis by simp
  qed
  have ulp: "(2::real) = 2 powr of_int (max \<lfloor>log 2 \<bar>2 ^ 54 - 1 :: real\<bar>\<rfloor> (- 1022) - 52)"
    unfolding e by simp
  have r: "roundHalfEven ((2 ^ 54 - 1) / 2) = 2 ^ 53"
  proof -
    have f: "\<lfloor>(2 ^ 54 - 1) / 2 :: real\<rfloor> = 2 ^ 53 - 1"
      by (simp add: floor_eq_iff)
    show ?thesis
      unfolding roundHalfEven_def Let_def f by simp
  qed
  have y: "(2 ^ 54 :: real) = of_int (roundHalfEven ((2 ^ 54 - 1) / 2)) * 2"
    unfolding r by simp
  have "(2 ^ 54 - 1 :: real) \<noteq> 0" by simp
  then have "round64 (2 ^ 54 - 1) =
      (if 2 ^ 1024 \<le> \<bar>2 ^ 54 :: real\<bar> then (if (2 ^ 54 :: real) < 0 then NegInf else PosInf)
       else Num (2 ^ 54))"
    using ulp y by (rule round64_eq)
  then show ?thesis by simp
qed

text \<open>A double: a real that rounding leaves as it is.\<close>

definition isDouble :: "real \<Rightarrow> bool" where
  "isDouble x \<longleftrightarrow> round64 x = Num x"

lemma less_powr_floor_log2: "0 < x \<Longrightarrow> x < 2 powr of_int (\<lfloor>log 2 x\<rfloor> + 1)"
proof -
  assume "0 < x"
  have "log 2 x < of_int (\<lfloor>log 2 x\<rfloor> + 1)"
    by linarith
  then show ?thesis
    using \<open>0 < x\<close> by (simp add: log_less_iff del: of_int_add)
qed

lemma double_below_one:
  assumes "isDouble r" and "0 < r" and "r < 1"
  shows "r \<le> 1 - 1 / 2 ^ 53"
proof -
  define e0 where "e0 = \<lfloor>log 2 \<bar>r\<bar>\<rfloor>"
  define E where "E = max e0 (- 1022)"
  define ulp :: real where "ulp = 2 powr of_int (E - 52)"
  define m where "m = roundHalfEven (r / ulp)"
  have up: "0 < ulp" by (simp add: ulp_def)
  have "log 2 r < 0"
    using assms(2,3) by simp
  then have e0: "e0 \<le> - 1"
    unfolding e0_def using assms(2) by (simp add: floor_le_iff)
  then have E1: "E \<le> - 1" and e0E: "e0 \<le> E"
    by (simp_all add: E_def)
  have "round64 r =
      (if 2 ^ 1024 \<le> \<bar>of_int m * ulp\<bar> then (if of_int m * ulp < 0 then NegInf else PosInf)
       else Num (of_int m * ulp))"
    by (rule round64_eq) (use assms(2) in \<open>simp_all add: ulp_def E_def e0_def m_def\<close>)
  then have rm: "r = of_int m * ulp"
    using assms(1) by (auto simp: isDouble_def split: if_splits)
  have "r < 2 powr of_int (e0 + 1)"
    using less_powr_floor_log2 [OF assms(2)] assms(2) by (simp add: e0_def)
  also have "\<dots> \<le> 2 powr of_int (E + 1)"
    using e0E by simp
  finally have "of_int m * ulp < 2 powr of_int (E + 1)"
    using rm by simp
  then have "of_int m < 2 powr of_int (E + 1) / ulp"
    using up by (simp add: pos_less_divide_eq)
  also have "2 powr of_int (E + 1) / ulp = 2 powr 53"
    by (simp add: ulp_def powr_diff [symmetric])
  finally have "real_of_int m < 2 ^ 53"
    by (simp add: powr_realpow [symmetric])
  then have "m < 2 ^ 53"
    by simp
  then have "m \<le> 2 ^ 53 - 1"
    by simp
  then have "real_of_int m \<le> real_of_int (2 ^ 53 - 1)"
    by (simp only: of_int_le_iff)
  then have "real_of_int m \<le> 2 ^ 53 - 1"
    by simp
  then have "r \<le> (2 ^ 53 - 1) * ulp"
    using rm up by (simp add: mult_right_mono)
  also have "\<dots> \<le> (2 ^ 53 - 1) * (1 / 2 ^ 53)"
  proof -
    have "ulp \<le> 2 powr of_int (- 53)"
      unfolding ulp_def using E1 by (simp del: of_int_diff of_int_minus)
    also have "\<dots> = 1 / 2 ^ 53"
      by (simp add: powr_minus powr_realpow [symmetric] inverse_eq_divide)
    finally show ?thesis
      by (simp add: mult_left_mono)
  qed
  finally show ?thesis
    by (simp add: field_simps)
qed


text \<open>The rounded product of a double below 1 and 6 is a double below 6.\<close>

lemma round64_times_six:
  assumes "isDouble r" and "0 \<le> r" and "r < 1"
  shows "\<exists>y. round64 (r * 6) = Num y \<and> 0 \<le> y \<and> y < 6"
proof (cases "r = 0")
  case True
  then show ?thesis by (simp add: round64_def)
next
  case False
  then have rpos: "0 < r" using assms(2) by simp
  define x where "x = r * 6"
  define E where "E = max \<lfloor>log 2 \<bar>x\<bar>\<rfloor> (- 1022)"
  define ulp :: real where "ulp = 2 powr of_int (E - 52)"
  define y where "y = of_int (roundHalfEven (x / ulp)) * ulp"
  have xpos: "0 < x" using rpos by (simp add: x_def)
  have up: "0 < ulp" by (simp add: ulp_def)
  have xle: "x \<le> 6 - 6 / 2 ^ 53"
    using double_below_one [OF assms(1) rpos assms(3)] by (simp add: x_def)
  have "x < 2 powr 3"
    using xle by simp
  then have "log 2 x < 3"
    using xpos by (simp add: log_less_iff)
  then have "\<lfloor>log 2 \<bar>x\<bar>\<rfloor> \<le> 2"
    using xpos by (simp add: floor_le_iff)
  then have E2: "E \<le> 2"
    by (simp add: E_def)
  have ulp50: "ulp \<le> 1 / 2 ^ 50"
  proof -
    have "ulp \<le> 2 powr of_int (- 50)"
      unfolding ulp_def using E2 by (simp del: of_int_diff of_int_minus)
    also have "\<dots> = 1 / 2 ^ 50"
      by (simp add: powr_minus powr_realpow [symmetric] inverse_eq_divide)
    finally show ?thesis .
  qed
  have hi: "y \<le> x + ulp / 2"
  proof -
    have "y \<le> (x / ulp + 1 / 2) * ulp"
      unfolding y_def using roundHalfEven_bounds(2) [of "x / ulp"] up
      by (simp add: mult_right_mono)
    also have "\<dots> = x + ulp / 2"
      using up by (simp add: field_simps)
    finally show ?thesis .
  qed
  have lo: "0 \<le> y"
  proof -
    have "0 < x / ulp" using xpos up by simp
    then have "- 1 / 2 < real_of_int (roundHalfEven (x / ulp))"
      using roundHalfEven_bounds(1) [of "x / ulp"] by linarith
    then have "0 \<le> roundHalfEven (x / ulp)"
      by linarith
    then show ?thesis
      using up by (simp add: y_def)
  qed
  have y6: "y < 6"
    using hi xle ulp50 by simp
  have small: "\<not> 2 ^ 1024 \<le> \<bar>y\<bar>"
  proof -
    have "\<bar>y\<bar> < 6" using lo y6 by simp
    also have "\<dots> < (2::real) ^ 1024" by simp
    finally show ?thesis by simp
  qed
  have "round64 x = (if 2 ^ 1024 \<le> \<bar>y\<bar> then (if y < 0 then NegInf else PosInf) else Num y)"
    by (rule round64_eq) (use xpos in \<open>simp_all add: ulp_def E_def y_def\<close>)
  then have "round64 x = Num y"
    using small by (simp only: if_False)
  then show ?thesis
    using lo y6 by (auto simp: x_def)
qed

section \<open>The retry wrapper (services/geminiService.ts)\<close>

text \<open>
  An error object, as far as the code reads it: an optional \<open>message\<close> (a string), and
  optional \<open>code\<close> and \<open>status\<close>, each a number or a string (the SDK's errors carry a
  numeric HTTP status, the service's error bodies a numeric code and a status name).
\<close>

datatype jsprim = PNum int | PStr jsstr

record jserror =
  message :: "jsstr option"
  code :: "jsprim option"
  status :: "jsprim option"

text \<open>
  A settled promise: fulfilled with a value, or rejected with any value. The value of a
  rejection is \<open>null\<close> or \<open>undefined\<close> (here \<open>None\<close>) or something whose properties
  can be read: an error object (a primitive such as a string has none of the three
  properties and reads like an object without them).
\<close>

datatype 'a outcome = Resolve 'a | Reject "jserror option"

text \<open>\<open>error?.message\<close>, \<open>error?.code\<close> and \<open>error?.status\<close>.\<close>

definition errorMessage :: "jserror option \<Rightarrow> jsstr option" where
  "errorMessage error = (case error of None \<Rightarrow> None | Some err \<Rightarrow> message err)"

definition errorCode :: "jserror option \<Rightarrow> jsprim option" where
  "errorCode error = (case error of None \<Rightarrow> None | Some err \<Rightarrow> code err)"

definition errorStatus :: "jserror option \<Rightarrow> jsprim option" where
  "errorStatus error = (case error of None \<Rightarrow> None | Some err \<Rightarrow> status err)"

text \<open>
  The operation passed to \<open>withRetry\<close> is a thunk with effects; \<open>operation k\<close> is what
  its call number \<open>k\<close> (from 0) settles with. What \<open>withRetry\<close> does besides returning
  is kept in a log: each call of the operation and each \<open>sleep\<close>, with its delay in ms.
\<close>

datatype event = Call nat | Sleep jsnum

text \<open>
  The test of the \<open>catch\<close> block: \<open>error?.message?.includes('overloaded') ||
  error?.message?.includes('503') || error?.code === 503 || error?.status === 'UNAVAILABLE'\<close>.
\<close>

definition isOverloaded :: "jserror option \<Rightarrow> bool" where
  "isOverloaded error \<longleftrightarrow>
     (case errorMessage error of None \<Rightarrow> False | Some m \<Rightarrow> includes' m (js ''overloaded'')) \<or>
     (case errorMessage error of None \<Rightarrow> False | Some m \<Rightarrow> includes' m (js ''503'')) \<or>
     errorCode error = Some (PNum 503) \<or>
     errorStatus error = Some (PStr (js ''UNAVAILABLE''))"

text \<open>
  \<open>withRetry(operation, retries, delay)\<close>, with the number of the next call of the
  operation as fourth argument. The retry budget and the delay are numbers; the
  recursive call is made with \<open>retries - 1\<close> and \<open>delay * 2\<close>, and only when
  \<open>retries > 0\<close>. The result is \<open>None\<close> when the recursion never ends.
\<close>

partial_function (option) withRetry ::
  "(nat \<Rightarrow> 'a outcome) \<Rightarrow> jsnum \<Rightarrow> jsnum \<Rightarrow> nat \<Rightarrow> ('a outcome \<times> event list) option" where
  "withRetry operation retries delay k =
     (case operation k of
        Resolve v \<Rightarrow> Some (Resolve v, [Call k])
      | Reject error \<Rightarrow>
          if isOverloaded error \<and> jsGreater0 retries
          then Option.bind (withRetry operation (jsMinus1 retries) (jsTimes delay 2) (Suc k))
                 (\<lambda>(r, events). Some (r, Call k # Sleep delay # events))
          else Some (Reject error, [Call k]))"


text \<open>The defaults of the source: \<open>retries = 3\<close>, \<open>delay = 2000\<close>.\<close>

definition withRetry_default :: "(nat \<Rightarrow> 'a outcome) \<Rightarrow> ('a outcome \<times> event list) option" where
  "withRetry_default operation = withRetry operation (Num 3) (Num 2000) 0"

fun callCount :: "event list \<Rightarrow> nat" where
  "callCount [] = 0"
| "callCount (Call k # es) = Suc (callCount es)"
| "callCount (Sleep d # es) = callCount es"

fun sleeps :: "event list \<Rightarrow> jsnum list" where
  "sleeps [] = []"
| "sleeps (Call k # es) = sleeps es"
| "sleeps (Sleep d # es) = d # sleeps es"

text \<open>A call that fails with the transient-overload signal.\<close>

definition transientFailure :: "'a outcome \<Rightarrow> bool" where
  "transientFailure r \<longleftrightarrow> (case r of Resolve v \<Rightarrow> False | Reject error \<Rightarrow> isOverloaded error)"

subsection \<open>One step of the wrapper\<close>

lemma withRetry_stop:
  "\<not> transientFailure (operation k) \<or> \<not> jsGreater0 retries \<Longrightarrow>
   withRetry operation retries delay k = Some (operation k, [Call k])"
  by (subst withRetry.simps) (auto simp: transientFailure_def split: outcome.splits)

lemma withRetry_again:
  "transientFailure (operation k) \<Longrightarrow> jsGreater0 retries \<Longrightarrow>
   withRetry operation retries delay k =
     Option.bind (withRetry operation (jsMinus1 retries) (jsTimes delay 2) (Suc k))
       (\<lambda>(r, events). Some (r, Call k # Sleep delay # events))"
  by (subst withRetry.simps) (auto simp: transientFailure_def split: outcome.splits)

text \<open>The log after \<open>m\<close> failed attempts that were each followed by a retry.\<close>

fun retried :: "nat \<Rightarrow> jsnum \<Rightarrow> nat \<Rightarrow> event list" where
  "retried 0 delay k = []"
| "retried (Suc m) delay k = Call k # Sleep delay # retried m (jsTimes delay 2) (Suc k)"

fun doubled :: "nat \<Rightarrow> jsnum \<Rightarrow> jsnum" where
  "doubled 0 delay = delay"
| "doubled (Suc m) delay = doubled m (jsTimes delay 2)"

lemma callCount_append: "callCount (xs @ ys) = callCount xs + callCount ys"
  by (induction xs rule: callCount.induct) auto

lemma sleeps_append: "sleeps (xs @ ys) = sleeps xs @ sleeps ys"
  by (induction xs rule: sleeps.induct) auto

lemma callCount_retried: "callCount (retried m delay k) = m"
  by (induction m arbitrary: delay k) auto

lemma length_sleeps_retried: "length (sleeps (retried m delay k)) = m"
  by (induction m arbitrary: delay k) auto

lemma jsGreater0_Suc: "jsGreater0 (Num (real (Suc n)))"
  by (simp add: jsGreater0_def)

lemma withRetry_unroll:
  "\<forall>i<m. transientFailure (operation (k + i)) \<Longrightarrow> m \<le> n \<Longrightarrow> n \<le> 2 ^ 53 \<Longrightarrow>
   withRetry operation (Num (real n)) delay k =
     Option.bind (withRetry operation (Num (real (n - m))) (doubled m delay) (k + m))
       (\<lambda>(r, events). Some (r, retried m delay k @ events))"
proof (induction m arbitrary: n delay k)
  case 0
  show ?case by (simp split: option.splits)
next
  case (Suc m)
  obtain n' where n: "n = Suc n'"
    using Suc.prems(2) by (cases n) auto
  have first: "transientFailure (operation k)"
    using Suc.prems(1) by (metis add.right_neutral zero_less_Suc)
  have rest: "\<forall>i<m. transientFailure (operation (Suc k + i))"
    using Suc.prems(1) by (metis Suc_less_eq add_Suc_shift)
  have budget: "m \<le> n'" "n' \<le> 2 ^ 53" "n' < 2 ^ 53"
    using Suc.prems(2,3) n by simp_all
  have ih: "withRetry operation (Num (real n')) (jsTimes delay 2) (Suc k) =
     Option.bind (withRetry operation (Num (real (n' - m))) (doubled m (jsTimes delay 2)) (Suc k + m))
       (\<lambda>(r, events). Some (r, retried m (jsTimes delay 2) (Suc k) @ events))"
    using rest budget(1,2) by (rule Suc.IH)
  have "withRetry operation (Num (real n)) delay k =
     Option.bind (withRetry operation (Num (real n')) (jsTimes delay 2) (Suc k))
       (\<lambda>(r, events). Some (r, Call k # Sleep delay # events))"
    unfolding n using first jsGreater0_Suc [of n'] jsMinus1_Suc [OF budget(3)]
    by (simp add: withRetry_again)
  then show ?case
    unfolding ih n by (auto split: Option.bind_splits)
qed

subsection \<open>The claims on the wrapper\<close>

lemma default_delays:
  "jsTimes (Num 2000) 2 = Num 4000" "jsTimes (Num 4000) 2 = Num 8000"
  "jsTimes (Num 8000) 2 = Num 16000"
  using jsTimes_nat [of 2000 2] jsTimes_nat [of 4000 2] jsTimes_nat [of 8000 2] by simp_all

lemma backoff_delays:
  "N \<le> 3 \<Longrightarrow> sleeps (retried N (Num 2000) k) = take N [Num 2000, Num 4000, Num 8000]"
proof -
  assume "N \<le> 3"
  then consider "N = 0" | "N = 1" | "N = 2" | "N = 3"
    by linarith
  then show ?thesis
    by cases (simp_all add: numeral_2_eq_2 numeral_3_eq_3 default_delays)
qed

lemma sorted_backoff: "sorted_wrt jsLess (take N [Num 2000, Num 4000, Num 8000])"
proof (cases "N \<le> 3")
  case True
  then consider "N = 0" | "N = 1" | "N = 2" | "N = 3"
    by linarith
  then show ?thesis
    by cases simp_all
next
  case False
  then show ?thesis by simp
qed

text \<open>Sample errors and operations, for the concrete instances.\<close>

definition overloadedError :: jserror where
  "overloadedError = \<lparr>message = Some (js ''The model is overloaded.''), code = Some (PNum 503),
                       status = Some (PStr (js ''UNAVAILABLE''))\<rparr>"

definition quotaError :: jserror where
  "quotaError = \<lparr>message = Some (js ''429 quota exceeded''), code = Some (PNum 429),
                  status = Some (PStr (js ''RESOURCE_EXHAUSTED''))\<rparr>"

definition failsTwice :: "nat \<Rightarrow> jsstr outcome" where
  "failsTwice k = (if k < 2 then Reject (Some overloadedError) else Resolve (js ''ok''))"

definition failsAlways :: "nat \<Rightarrow> jsstr outcome" where
  "failsAlways k = Reject (Some overloadedError)"

definition failsQuota :: "nat \<Rightarrow> jsstr outcome" where
  "failsQuota k = Reject (Some quotaError)"

definition failsUndefined :: "nat \<Rightarrow> jsstr outcome" where
  "failsUndefined k = Reject None"

lemma isOverloaded_overloadedError: "isOverloaded (Some overloadedError)"
  by (simp add: isOverloaded_def errorCode_def overloadedError_def)

lemma not_isOverloaded_quotaError: "\<not> isOverloaded (Some quotaError)"
  by (simp add: isOverloaded_def errorMessage_def errorCode_def errorStatus_def quotaError_def
      js_def startsWith_def)

lemma not_isOverloaded_undefined: "\<not> isOverloaded None"
  by (simp add: isOverloaded_def errorMessage_def errorCode_def errorStatus_def)

text \<open>
  C1: when the first \<open>N\<close> calls of the operation fail with the transient-overload signal
  and, if the budget of 3 retries is not used up by then, the next call does not, the
  wrapper with its default budget settles as its last call did, after exactly
  \<open>min (N + 1) 4\<close> calls of the operation; the delays slept between the calls are the
  first \<open>N\<close> of 2000, 4000, 8000 ms, each larger than the one before.
\<close>

theorem withRetry_attempts:
  assumes "\<forall>i<N. transientFailure (operation i)"
    and "N \<le> 3 \<longrightarrow> \<not> transientFailure (operation N)"
  shows "\<exists>events. withRetry_default operation = Some (operation (min N 3), events)
       \<and> callCount events = min (N + 1) 4
       \<and> sleeps events = take N [Num 2000, Num 4000, Num 8000]
       \<and> sorted_wrt jsLess (sleeps events)"
proof -
  define m where "m = min N 3"
  have m3: "m \<le> 3" and mN: "m \<le> N"
    by (simp_all add: m_def)
  have fails: "\<forall>i<m. transientFailure (operation (0 + i))"
    using assms(1) mN by simp
  have unroll: "withRetry operation (Num (real 3)) (Num 2000) 0 =
     Option.bind (withRetry operation (Num (real (3 - m))) (doubled m (Num 2000)) (0 + m))
       (\<lambda>(r, events). Some (r, retried m (Num 2000) 0 @ events))"
    using fails m3 by (rule withRetry_unroll) simp
  have "\<not> transientFailure (operation m) \<or> \<not> jsGreater0 (Num (real (3 - m)))"
    using assms(2) by (cases "N \<le> 3") (simp_all add: m_def jsGreater0_def)
  then have last: "withRetry operation (Num (real (3 - m))) (doubled m (Num 2000)) (0 + m)
      = Some (operation m, [Call m])"
    using withRetry_stop [of operation m "Num (real (3 - m))" "doubled m (Num 2000)"] by simp
  have run: "withRetry_default operation = Some (operation m, retried m (Num 2000) 0 @ [Call m])"
    using unroll last by (simp add: withRetry_default_def)
  have calls: "callCount (retried m (Num 2000) 0 @ [Call m]) = min (N + 1) 4"
    by (simp add: callCount_append callCount_retried m_def)
  have "sleeps (retried m (Num 2000) 0 @ [Call m]) = take m [Num 2000, Num 4000, Num 8000]"
    using backoff_delays [OF m3] by (simp add: sleeps_append)
  also have "\<dots> = take N [Num 2000, Num 4000, Num 8000]"
    by (simp add: m_def min_def)
  finally have slept: "sleeps (retried m (Num 2000) 0 @ [Call m])
      = take N [Num 2000, Num 4000, Num 8000]" .
  show ?thesis
    using run calls slept sorted_backoff [of N] by (simp add: m_def)
qed

theorem withRetry_attempts_witness:
  "(\<exists>events. withRetry_default failsTwice = Some (Resolve (js ''ok''), events)
      \<and> callCount events = 3 \<and> sleeps events = [Num 2000, Num 4000])
   \<and> (\<exists>events. withRetry_default failsAlways = Some (Reject (Some overloadedError), events)
      \<and> callCount events = 4 \<and> sleeps events = [Num 2000, Num 4000, Num 8000])"
proof -
  have a: "\<forall>i<2. transientFailure (failsTwice i)"
    by (simp add: failsTwice_def transientFailure_def isOverloaded_overloadedError)
  have b: "(2::nat) \<le> 3 \<longrightarrow> \<not> transientFailure (failsTwice 2)"
    by (simp add: failsTwice_def transientFailure_def)
  have c: "\<forall>i<5. transientFailure (failsAlways i)"
    by (simp add: failsAlways_def transientFailure_def isOverloaded_overloadedError)
  have d: "(5::nat) \<le> 3 \<longrightarrow> \<not> transientFailure (failsAlways 5)"
    by simp
  have e: "failsTwice 2 = Resolve (js ''ok'')" "failsAlways 3 = Reject (Some overloadedError)"
    by (simp_all add: failsTwice_def failsAlways_def)
  show ?thesis
    using withRetry_attempts [OF a b] withRetry_attempts [OF c d]
    by (auto simp: e)
qed

text \<open>
  C4: when a call of the operation fails with a value that is not the transient-overload
  signal (no message containing \<open>overloaded\<close> or \<open>503\<close>, a code other than the number 503,
  a status other than \<open>UNAVAILABLE\<close>), the wrapper rejects with that value after this one
  call and sleeps no delay, whatever the budget and the delay.
\<close>

theorem withRetry_non_transient:
  assumes "operation k = Reject error"
    and "\<forall>m. errorMessage error = Some m \<longrightarrow>
           \<not> includes' m (js ''overloaded'') \<and> \<not> includes' m (js ''503'')"
    and "errorCode error \<noteq> Some (PNum 503)"
    and "errorStatus error \<noteq> Some (PStr (js ''UNAVAILABLE''))"
  shows "withRetry operation retries delay k = Some (Reject error, [Call k])"
proof -
  have "\<not> isOverloaded error"
    using assms(2-4) by (auto simp: isOverloaded_def split: option.splits)
  then have "\<not> transientFailure (operation k)"
    by (simp add: assms(1) transientFailure_def)
  then show ?thesis
    using withRetry_stop [of operation k retries delay] by (simp add: assms(1))
qed

theorem withRetry_non_transient_witness:
  "withRetry_default failsQuota = Some (Reject (Some quotaError), [Call 0])
   \<and> withRetry_default failsUndefined = Some (Reject None, [Call 0])"
proof -
  have a: "failsQuota 0 = Reject (Some quotaError)" "failsUndefined 0 = Reject None"
    by (simp_all add: failsQuota_def failsUndefined_def)
  have b: "\<forall>m. errorMessage (Some quotaError) = Some m \<longrightarrow>
             \<not> includes' m (js ''overloaded'') \<and> \<not> includes' m (js ''503'')"
    "\<forall>m. errorMessage None = Some m \<longrightarrow>
             \<not> includes' m (js ''overloaded'') \<and> \<not> includes' m (js ''503'')"
    by (simp_all add: errorMessage_def quotaError_def js_def startsWith_def)
  have c: "errorCode (Some quotaError) \<noteq> Some (PNum 503)" "errorCode None \<noteq> Some (PNum 503)"
    by (simp_all add: errorCode_def quotaError_def)
  have d: "errorStatus (Some quotaError) \<noteq> Some (PStr (js ''UNAVAILABLE''))"
    "errorStatus None \<noteq> Some (PStr (js ''UNAVAILABLE''))"
    by (simp_all add: errorStatus_def quotaError_def js_def)
  show ?thesis
    using withRetry_non_transient [of failsQuota 0 "Some quotaError" "Num 3" "Num 2000",
        OF a(1) b(1) c(1) d(1)]
      withRetry_non_transient [of failsUndefined 0 None "Num 3" "Num 2000",
        OF a(2) b(2) c(2) d(2)]
    by (simp add: withRetry_default_def)
qed

text \<open>
  At the budget \<open>2 ^ 54\<close> the recursive call has the same budget: if every call of the
  operation is overloaded, no result is ever reached.
\<close>

lemma withRetry_never_settles:
  assumes "withRetry operation retries delay k = Some y"
  shows "(\<forall>j. transientFailure (operation j)) \<longrightarrow> retries \<noteq> Num (2 ^ 54)"
  apply (rule withRetry.raw_induct
      [where P = "\<lambda>operation retries delay k y.
                    (\<forall>j. transientFailure (operation j)) \<longrightarrow> retries \<noteq> Num (2 ^ 54)",
        OF _ assms])
  subgoal premises prems for f op r d k y
  proof (intro impI notI)
    assume all: "\<forall>j. transientFailure (op j)" and r: "r = Num (2 ^ 54)"
    obtain error where e: "op k = Reject error" "isOverloaded error"
      using all [rule_format, of k] by (auto simp: transientFailure_def split: outcome.splits)
    have "jsGreater0 r" "jsMinus1 r = Num (2 ^ 54)"
      using r round64_stuck by (simp_all add: jsGreater0_def jsMinus1_def)
    then obtain y' where "f op (Num (2 ^ 54)) (jsTimes d 2) (Suc k) = Some y'"
      using prems(2) e by (auto simp: bind_eq_Some_conv)
    then show False
      using prems(1) all by blast
  qed
  done


text \<open>
  With a whole budget up to \<open>2 ^ 53\<close> the wrapper settles, as the last of at most
  \<open>n + 1\<close> calls did; so it does with the default budget.
\<close>

lemma withRetry_small_budget:
  "n \<le> 2 ^ 53 \<Longrightarrow>
   \<exists>events. withRetry operation (Num (real n)) delay k
       = Some (operation (k + length (sleeps events)), events)
     \<and> callCount events \<le> n + 1 \<and> callCount events = length (sleeps events) + 1"
proof (induction n arbitrary: delay k)
  case 0
  have "\<not> jsGreater0 (Num (real 0))"
    by (simp add: jsGreater0_def)
  then have "withRetry operation (Num (real 0)) delay k = Some (operation k, [Call k])"
    by (simp add: withRetry_stop)
  then show ?case by simp
next
  case (Suc n)
  show ?case
  proof (cases "transientFailure (operation k)")
    case False
    then have "withRetry operation (Num (real (Suc n))) delay k = Some (operation k, [Call k])"
      by (simp add: withRetry_stop)
    then show ?thesis by simp
  next
    case True
    have n: "n \<le> 2 ^ 53" "n < 2 ^ 53"
      using Suc.prems by simp_all
    obtain events where ev:
      "withRetry operation (Num (real n)) (jsTimes delay 2) (Suc k)
         = Some (operation (Suc k + length (sleeps events)), events)"
      "callCount events \<le> n + 1" "callCount events = length (sleeps events) + 1"
      using Suc.IH [OF n(1), of "jsTimes delay 2" "Suc k"] by blast
    have "withRetry operation (Num (real (Suc n))) delay k =
       Some (operation (Suc k + length (sleeps events)), Call k # Sleep delay # events)"
      using withRetry_again [of operation k "Num (real (Suc n))" delay, OF True jsGreater0_Suc]
        jsMinus1_Suc [OF n(2)] ev(1)
      by simp
    then show ?thesis
      using ev(2,3) by simp
  qed
qed

lemma withRetry_default_settles:
  "\<exists>j events. withRetry_default operation = Some (operation j, events)"
  using withRetry_small_budget [of 3 operation "Num 2000" 0]
  by (auto simp: withRetry_default_def)

text \<open>
  C10, as stated: for every budget \<open>n\<close> the wrapper terminates after at most \<open>n + 1\<close>
  calls. The budget is a double: at \<open>2 ^ 54\<close> the difference \<open>retries - 1\<close> rounds back to
  \<open>retries\<close>, and an operation that is overloaded at every call is retried for ever; at
  the budget \<open>1 / 2\<close> there are two calls.
\<close>

theorem withRetry_budget_counterexample:
  "withRetry failsAlways (Num (2 ^ 54)) (Num 2000) 0 = None
   \<and> withRetry failsAlways (Num (1 / 2)) (Num 2000) 0
       = Some (Reject (Some overloadedError), [Call 0, Sleep (Num 2000), Call 1])
   \<and> \<not> real (callCount [Call 0, Sleep (Num 2000), Call 1]) \<le> 1 / 2 + 1"
proof -
  have tf: "\<forall>j. transientFailure (failsAlways j)"
    by (simp add: failsAlways_def transientFailure_def isOverloaded_overloadedError)
  have never: "withRetry failsAlways (Num (2 ^ 54)) (Num 2000) 0 = None"
  proof (cases "withRetry failsAlways (Num (2 ^ 54)) (Num 2000) 0")
    case None
    then show ?thesis .
  next
    case (Some y)
    then show ?thesis
      using withRetry_never_settles [OF Some] tf by blast
  qed
  have "\<not> jsGreater0 (jsMinus1 (Num (1 / 2)))"
    using round64_nonpos [of "1 / 2 - 1"] by (simp add: jsMinus1_def)
  then have "withRetry failsAlways (jsMinus1 (Num (1 / 2))) (jsTimes (Num 2000) 2) (Suc 0)
      = Some (Reject (Some overloadedError), [Call 1])"
    by (simp add: withRetry_stop failsAlways_def)
  moreover have "jsGreater0 (Num (1 / 2))"
    by (simp add: jsGreater0_def)
  ultimately have half: "withRetry failsAlways (Num (1 / 2)) (Num 2000) 0
       = Some (Reject (Some overloadedError), [Call 0, Sleep (Num 2000), Call 1])"
    using tf by (simp add: withRetry_again)
  show ?thesis
    using never half by simp
qed

text \<open>
  C10, amended: for every operation whose calls each settle, every initial delay and
  every retry budget that is a whole number from 0 to \<open>2 ^ 53\<close>, where \<open>retries - 1\<close> is
  exact, \<open>withRetry\<close> terminates:
  each recursive call has a budget smaller by one, so there are at most \<open>n + 1\<close> calls of
  the operation, one sleep between two calls, and the wrapper settles as its last call
  did. For a budget that is not greater than 0 (also \<open>NaN\<close>) there is exactly one call.
\<close>

theorem withRetry_terminates:
  "(n \<le> 2 ^ 53 \<longrightarrow>
      (\<exists>events. withRetry operation (Num (real n)) delay k
           = Some (operation (k + length (sleeps events)), events)
         \<and> callCount events \<le> n + 1 \<and> callCount events = length (sleeps events) + 1))
   \<and> (\<not> jsGreater0 retries \<longrightarrow>
        withRetry operation retries delay k = Some (operation k, [Call k]))"
  using withRetry_small_budget [of n operation delay k] withRetry_stop [of operation k retries delay]
  by blast

theorem withRetry_terminates_witness:
  "(\<exists>events. withRetry failsAlways (Num 3) (Num 2000) 0
       = Some (failsAlways (0 + length (sleeps events)), events) \<and> callCount events \<le> 3 + 1)
   \<and> withRetry failsAlways (Num (- 1)) (Num 2000) 0 = Some (failsAlways 0, [Call 0])
   \<and> withRetry failsAlways NaN (Num 2000) 0 = Some (failsAlways 0, [Call 0])"
proof -
  have a: "(3::nat) \<le> 2 ^ 53" by simp
  have b: "\<not> jsGreater0 (Num (- 1))" "\<not> jsGreater0 NaN"
    by (simp_all add: jsGreater0_def)
  show ?thesis
    using withRetry_terminates [of 3 failsAlways "Num 2000" 0 "Num (- 1)"]
      withRetry_terminates [of 3 failsAlways "Num 2000" 0 NaN] a b
    by auto
qed

section \<open>User-facing error messages (App.tsx)\<close>

text \<open>
  The four messages of \<open>handleApiError\<close>. The letters outside ASCII are written by their
  code unit: \<open>0xE7\<close> c with cedilla, \<open>0xE3\<close> a with tilde, \<open>0xE1\<close> a with acute,
  \<open>0xF5\<close> o with tilde.
\<close>

definition msgConfig :: jsstr where
  "msgConfig = js ''Configura'' @ [0xE7, 0xE3] @ js ''o necess'' @ [0xE1] @
     js ''ria: Verifique se a API_KEY est'' @ [0xE1] @
     js '' definida no .env ou no painel de hospedagem.''"

definition msgDemand :: jsstr where
  "msgDemand = js ''Nossa musa inspiradora est'' @ [0xE1] @
     js '' com alta demanda no momento. Por favor, aguarde alguns segundos e tente novamente.''"

definition msgLimit :: jsstr where
  "msgLimit = js ''Limite de requisi'' @ [0xE7, 0xF5] @
     js ''es excedido. Aguarde um momento antes de buscar novamente.''"

definition msgUnknown :: jsstr where
  "msgUnknown = js ''Falha desconhecida na conex'' @ [0xE3] @ js ''o.''"

text \<open>
  \<open>handleApiError(err)\<close>: \<open>msg\<close> is \<open>err.message || ""\<close>, so a missing and an empty
  message are the same. The first test is \<open>===\<close>, the others are \<open>includes\<close>.
\<close>

definition handleApiError :: "jserror \<Rightarrow> jsstr" where
  "handleApiError err =
     (let msg = (case message err of None \<Rightarrow> [] | Some m \<Rightarrow> m)
      in if msg = js ''API_KEY_MISSING'' then msgConfig
         else if includes' msg (js ''503'') \<or> includes' msg (js ''overloaded'')
                 \<or> includes' msg (js ''UNAVAILABLE'')
         then msgDemand
         else if includes' msg (js ''429'') \<or> includes' msg (js ''quota'')
         then msgLimit
         else js ''Erro: '' @ (if msg = [] then msgUnknown else msg))"

text \<open>
  The four categories of the specification, and the category that a displayed message
  belongs to: one of the three fixed messages, or a text that starts with \<open>Erro: \<close>.
\<close>

datatype category = MissingCredential | Overload | QuotaExceeded | UnknownError

definition categoryOf :: "jsstr \<Rightarrow> category option" where
  "categoryOf shown =
     (if shown = msgConfig then Some MissingCredential
      else if shown = msgDemand then Some Overload
      else if shown = msgLimit then Some QuotaExceeded
      else if startsWith shown (js ''Erro: '') then Some UnknownError
      else None)"

definition errorWithMessage :: "jsstr \<Rightarrow> jserror" where
  "errorWithMessage m = \<lparr>message = Some m, code = None, status = None\<rparr>"

lemma js_Cons: "js (c # cs) = of_nat (of_char c) # js cs"
  by (simp add: js_def)

lemma js_Nil: "js [] = []"
  by (simp add: js_def)

lemma hd_messages:
  "hd msgConfig = 67" "hd msgDemand = 78" "hd msgLimit = 76" "hd (js ''Erro: '' @ rest) = 69"
  by (simp_all add: msgConfig_def msgDemand_def msgLimit_def js_Cons)

lemma messages_distinct:
  "msgConfig \<noteq> msgDemand" "msgConfig \<noteq> msgLimit" "msgDemand \<noteq> msgLimit"
  "js ''Erro: '' @ rest \<noteq> msgConfig" "js ''Erro: '' @ rest \<noteq> msgDemand"
  "js ''Erro: '' @ rest \<noteq> msgLimit"
proof -
  have neq: "\<And>a b :: jsstr. hd a \<noteq> hd b \<Longrightarrow> a \<noteq> b"
    by auto
  show "msgConfig \<noteq> msgDemand" "msgConfig \<noteq> msgLimit" "msgDemand \<noteq> msgLimit"
    "js ''Erro: '' @ rest \<noteq> msgConfig" "js ''Erro: '' @ rest \<noteq> msgDemand"
    "js ''Erro: '' @ rest \<noteq> msgLimit"
    by (rule neq, simp add: hd_messages)+
qed

lemma startsWith_append: "startsWith (p @ rest) p"
  by (simp add: startsWith_def)

text \<open>
  C7, as stated: the missing-credential message is selected by substring matching. It is
  not: a message that contains \<open>API_KEY_MISSING\<close> and more is reported as an unknown error.
\<close>

theorem handleApiError_substring_counterexample:
  "includes' (js ''Error: API_KEY_MISSING'') (js ''API_KEY_MISSING'')
   \<and> handleApiError (errorWithMessage (js ''Error: API_KEY_MISSING''))
       = js ''Erro: Error: API_KEY_MISSING''
   \<and> categoryOf (handleApiError (errorWithMessage (js ''Error: API_KEY_MISSING'')))
       = Some UnknownError"
  by (simp add: handleApiError_def errorWithMessage_def categoryOf_def js_def startsWith_def
      msgConfig_def msgDemand_def msgLimit_def)

text \<open>
  C7, amended: \<open>handleApiError\<close> puts every error in exactly one of the four categories,
  from its message text alone: missing credential when the message is equal to
  \<open>API_KEY_MISSING\<close>; otherwise overload when it contains \<open>503\<close>, \<open>overloaded\<close> or
  \<open>UNAVAILABLE\<close>; otherwise quota when it contains \<open>429\<close> or \<open>quota\<close>; otherwise unknown.
  Only the overload and quota categories are selected by substring matching.
\<close>

theorem handleApiError_category:
  "categoryOf (handleApiError err) = Some
     (let msg = (case message err of None \<Rightarrow> [] | Some m \<Rightarrow> m)
      in if msg = js ''API_KEY_MISSING'' then MissingCredential
         else if includes' msg (js ''503'') \<or> includes' msg (js ''overloaded'')
                 \<or> includes' msg (js ''UNAVAILABLE'')
         then Overload
         else if includes' msg (js ''429'') \<or> includes' msg (js ''quota'')
         then QuotaExceeded
         else UnknownError)"
  using messages_distinct startsWith_append [of "js ''Erro: ''"]
  by (simp add: handleApiError_def categoryOf_def Let_def)

theorem handleApiError_category_witness:
  "categoryOf (handleApiError (errorWithMessage (js ''API_KEY_MISSING''))) = Some MissingCredential
   \<and> categoryOf (handleApiError overloadedError) = Some Overload
   \<and> categoryOf (handleApiError quotaError) = Some QuotaExceeded
   \<and> categoryOf (handleApiError \<lparr>message = None, code = None, status = None\<rparr>) = Some UnknownError"
  using handleApiError_category [of "errorWithMessage (js ''API_KEY_MISSING'')"]
    handleApiError_category [of overloadedError]
    handleApiError_category [of quotaError]
    handleApiError_category [of "\<lparr>message = None, code = None, status = None\<rparr>"]
  by (simp add: errorWithMessage_def overloadedError_def quotaError_def js_def startsWith_def)

section \<open>Cleaning and parsing the model's JSON text (services/geminiService.ts)\<close>

subsection \<open>\<open>String.prototype.trim\<close> and the two regular expressions\<close>

text \<open>
  \<open>trim\<close> strips the code units that ECMAScript calls WhiteSpace or LineTerminator:
  TAB, LF, VT, FF, CR, SP, NBSP, U+1680, U+2000 to U+200A, LS, PS, U+202F, U+205F,
  U+3000 and the byte order mark U+FEFF.
\<close>

definition isWhiteSpace :: "16 word \<Rightarrow> bool" where
  "isWhiteSpace c \<longleftrightarrow>
     c = 0x0009 \<or> c = 0x000A \<or> c = 0x000B \<or> c = 0x000C \<or> c = 0x000D \<or> c = 0x0020 \<or>
     c = 0x00A0 \<or> c = 0x1680 \<or> (0x2000 \<le> c \<and> c \<le> 0x200A) \<or> c = 0x2028 \<or>
     c = 0x2029 \<or> c = 0x202F \<or> c = 0x205F \<or> c = 0x3000 \<or> c = 0xFEFF"

definition trim :: "jsstr \<Rightarrow> jsstr" where
  "trim s = rev (dropWhile isWhiteSpace (rev (dropWhile isWhiteSpace s)))"

text \<open>
  \<open>s.replace(/^p/, "")\<close> and \<open>s.replace(/p$/, "")\<close> for a literal \<open>p\<close>: without the
  \<open>m\<close> flag, \<open>^\<close> and \<open>$\<close> match at the two ends of the string only.
\<close>

definition replaceAtStart :: "jsstr \<Rightarrow> jsstr \<Rightarrow> jsstr" where
  "replaceAtStart p s = (if startsWith s p then drop (length p) s else s)"

definition replaceAtEnd :: "jsstr \<Rightarrow> jsstr \<Rightarrow> jsstr" where
  "replaceAtEnd p s = (if endsWith s p then take (length s - length p) s else s)"

definition fence :: jsstr where
  "fence = js ''```''"

definition fenceJson :: jsstr where
  "fenceJson = js ''```json''"

text \<open>
  \<open>cleanJsonString(str)\<close>; the argument is \<open>string | undefined\<close>, and \<open>!str\<close> holds for
  \<open>undefined\<close> and for the empty string.
\<close>

definition cleanJsonString :: "jsstr option \<Rightarrow> jsstr" where
  "cleanJsonString str =
     (case str of
        None \<Rightarrow> js ''{}''
      | Some s \<Rightarrow>
          if s = [] then js ''{}''
          else let cleaned = trim s;
                   cleaned =
                     (if startsWith cleaned fenceJson
                      then replaceAtEnd fence (replaceAtStart fenceJson cleaned)
                      else if startsWith cleaned fence
                      then replaceAtEnd fence (replaceAtStart fence cleaned)
                      else cleaned)
               in trim cleaned)"

subsection \<open>\<open>JSON.parse\<close>\<close>

text \<open>
  The values of JavaScript that the code handles: \<open>undefined\<close>, and what \<open>JSON.parse\<close>
  returns. A number is kept as the mathematical value of its literal, which
  \<open>JSON.parse\<close> rounds to a double: equal values give equal numbers. An object is the
  list of its members in source order (a later member with the same key wins).
\<close>

datatype jsval =
    VUndefined
  | VNull
  | VBool bool
  | VNum real
  | VStr jsstr
  | VArr "jsval list"
  | VObj "(jsstr \<times> jsval) list"

datatype token =
    TLBrace | TRBrace | TLBrack | TRBrack | TComma | TColon
  | TString jsstr | TNumber real | TTrue | TFalse | TNull

text \<open>The JSON grammar's white space is TAB, LF, CR and SP only.\<close>

definition isJsonWs :: "16 word \<Rightarrow> bool" where
  "isJsonWs c \<longleftrightarrow> c = 0x09 \<or> c = 0x0A \<or> c = 0x0D \<or> c = 0x20"

definition isDigit :: "16 word \<Rightarrow> bool" where
  "isDigit c \<longleftrightarrow> 0x30 \<le> c \<and> c \<le> 0x39"

text \<open>The code units a number literal is made of: digits, \<open>+\<close>, \<open>-\<close>, \<open>.\<close>, \<open>e\<close>, \<open>E\<close>.\<close>

definition isNumChar :: "16 word \<Rightarrow> bool" where
  "isNumChar c \<longleftrightarrow> isDigit c \<or> c = 0x2B \<or> c = 0x2D \<or> c = 0x2E \<or> c = 0x65 \<or> c = 0x45"

definition digitsValue :: "jsstr \<Rightarrow> nat" where
  "digitsValue ds = foldl (\<lambda>acc d. 10 * acc + (unat d - 0x30)) 0 ds"

text \<open>
  A number literal: \<open>-? (0 | [1-9][0-9]*) (. [0-9]+)? ([eE] [+-]? [0-9]+)?\<close>.
  \<open>None\<close> when the text is not of this form.
\<close>

definition parseExponent :: "jsstr \<Rightarrow> int option" where
  "parseExponent s =
     (case s of
        [] \<Rightarrow> Some 0
      | c # cs \<Rightarrow>
          if c = 0x65 \<or> c = 0x45 then
            (let negative = (cs \<noteq> [] \<and> hd cs = 0x2D);
                 ds = (if cs \<noteq> [] \<and> (hd cs = 0x2D \<or> hd cs = 0x2B) then tl cs else cs)
             in if ds \<noteq> [] \<and> list_all isDigit ds
                then Some (if negative then - int (digitsValue ds) else int (digitsValue ds))
                else None)
          else None)"

definition parseNumber :: "jsstr \<Rightarrow> real option" where
  "parseNumber s =
     (let negative = (s \<noteq> [] \<and> hd s = 0x2D);
          s1 = (if negative then tl s else s);
          intDigits = takeWhile isDigit s1;
          s2 = dropWhile isDigit s1;
          hasFraction = (s2 \<noteq> [] \<and> hd s2 = 0x2E);
          fracDigits = (if hasFraction then takeWhile isDigit (tl s2) else []);
          s3 = (if hasFraction then dropWhile isDigit (tl s2) else s2)
      in if intDigits = [] \<or> (length intDigits > 1 \<and> hd intDigits = 0x30)
            \<or> (hasFraction \<and> fracDigits = [])
         then None
         else (case parseExponent s3 of
                 None \<Rightarrow> None
               | Some e \<Rightarrow>
                   let mantissa = real (digitsValue (intDigits @ fracDigits))
                                    / 10 ^ length fracDigits;
                       scaled = (if e < 0 then mantissa / 10 ^ nat (- e)
                                 else mantissa * 10 ^ nat e)
                   in Some (if negative then - scaled else scaled)))"

text \<open>The value of a hexadecimal digit, and of the four digits after \<open>\u\<close>.\<close>

definition hexDigit :: "16 word \<Rightarrow> nat option" where
  "hexDigit c =
     (if 0x30 \<le> c \<and> c \<le> 0x39 then Some (unat c - 0x30)
      else if 0x41 \<le> c \<and> c \<le> 0x46 then Some (unat c - 0x41 + 10)
      else if 0x61 \<le> c \<and> c \<le> 0x66 then Some (unat c - 0x61 + 10)
      else None)"

definition hex4 :: "jsstr \<Rightarrow> 16 word option" where
  "hex4 s =
     (case s of
        [a, b, c, d] \<Rightarrow>
          (case (hexDigit a, hexDigit b, hexDigit c, hexDigit d) of
             (Some x, Some y, Some z, Some w) \<Rightarrow> Some (of_nat (((x * 16 + y) * 16 + z) * 16 + w))
           | _ \<Rightarrow> None)
      | _ \<Rightarrow> None)"

text \<open>The one-letter escapes: \<open>\"\<close>, \<open>\\\<close>, \<open>\/\<close>, \<open>\b\<close>, \<open>\f\<close>, \<open>\n\<close>, \<open>\r\<close>, \<open>\t\<close>.\<close>

definition escapeChar :: "16 word \<Rightarrow> 16 word option" where
  "escapeChar e =
     (if e = 0x22 then Some 0x22 else if e = 0x5C then Some 0x5C
      else if e = 0x2F then Some 0x2F else if e = 0x62 then Some 0x08
      else if e = 0x66 then Some 0x0C else if e = 0x6E then Some 0x0A
      else if e = 0x72 then Some 0x0D else if e = 0x74 then Some 0x09
      else None)"

text \<open>
  The rest of a string literal after its opening quote: the string's value and the text
  after the closing quote. Control characters below U+0020 are not allowed unescaped.
\<close>

fun scanString :: "jsstr \<Rightarrow> (jsstr \<times> jsstr) option" where
  "scanString [] = None"
| "scanString (c # cs) =
     (if c = 0x22 then Some ([], cs)
      else if c = 0x5C then
        (case cs of
           [] \<Rightarrow> None
         | e # es \<Rightarrow>
             if e = 0x75 then
               (case hex4 (take 4 es) of
                  None \<Rightarrow> None
                | Some u \<Rightarrow> map_option (\<lambda>(v, rest). (u # v, rest)) (scanString (drop 4 es)))
             else
               (case escapeChar e of
                  None \<Rightarrow> None
                | Some x \<Rightarrow> map_option (\<lambda>(v, rest). (x # v, rest)) (scanString es)))
      else if c < 0x20 then None
      else map_option (\<lambda>(v, rest). (c # v, rest)) (scanString cs))"

text \<open>
  One step of the lexer on a non-empty text: white space is skipped (no token), a
  token is read, or the text is not JSON (\<open>None\<close>).
\<close>

definition nextToken :: "jsstr \<Rightarrow> (token option \<times> jsstr) option" where
  "nextToken s =
     (case s of
        [] \<Rightarrow> None
      | c # cs \<Rightarrow>
          if isJsonWs c then Some (None, cs)
          else if c = 0x7B then Some (Some TLBrace, cs)
          else if c = 0x7D then Some (Some TRBrace, cs)
          else if c = 0x5B then Some (Some TLBrack, cs)
          else if c = 0x5D then Some (Some TRBrack, cs)
          else if c = 0x2C then Some (Some TComma, cs)
          else if c = 0x3A then Some (Some TColon, cs)
          else if c = 0x22 then
            (case scanString cs of
               None \<Rightarrow> None
             | Some (v, rest) \<Rightarrow> Some (Some (TString v), rest))
          else if c = 0x2D \<or> isDigit c then
            (case parseNumber (c # takeWhile isNumChar cs) of
               None \<Rightarrow> None
             | Some x \<Rightarrow> Some (Some (TNumber x), dropWhile isNumChar cs))
          else if startsWith s (js ''true'') then Some (Some TTrue, drop 4 s)
          else if startsWith s (js ''false'') then Some (Some TFalse, drop 5 s)
          else if startsWith s (js ''null'') then Some (Some TNull, drop 4 s)
          else None)"

lemma scanString_shorter: "scanString s = Some (v, rest) \<Longrightarrow> length rest < length s"
proof (induction s arbitrary: v rest rule: scanString.induct)
  case 1
  then show ?case by simp
next
  case (2 c cs)
  show ?case
  proof (cases "c = 0x22")
    case True
    then show ?thesis using "2.prems" by auto
  next
    case notq: False
    show ?thesis
    proof (cases "c = 0x5C")
      case True
      show ?thesis
      proof (cases cs)
        case Nil
        then show ?thesis using "2.prems" notq True by simp
      next
        case (Cons e es)
        show ?thesis
        proof (cases "e = 0x75")
          case u: True
          obtain uu v' where h: "hex4 (take 4 es) = Some uu" "scanString (drop 4 es) = Some (v', rest)"
            using "2.prems" notq True Cons u by (auto split: option.splits)
          have "length rest < length (drop 4 es)"
            using "2.IH"(1) [OF notq True Cons u h(1) h(2)] .
          then show ?thesis using Cons by simp
        next
          case nu: False
          obtain x v' where h: "escapeChar e = Some x" "scanString es = Some (v', rest)"
            using "2.prems" notq True Cons nu by (auto split: option.splits)
          have "length rest < length es"
            using "2.IH"(2) [OF notq True Cons nu h(1) h(2)] .
          then show ?thesis using Cons by simp
        qed
      qed
    next
      case nb: False
      have ctl: "\<not> c < 0x20"
        using "2.prems" notq nb by (auto split: if_splits)
      obtain v' where h: "scanString cs = Some (v', rest)"
        using "2.prems" notq nb ctl by auto
      have "length rest < length cs"
        using "2.IH"(3) [OF notq nb ctl h] .
      then show ?thesis by simp
    qed
  qed
qed

lemma nextToken_shorter: "nextToken s = Some (t, rest) \<Longrightarrow> length rest < length s"
  by (cases s)
    (auto simp: nextToken_def less_Suc_eq_le le_SucI length_dropWhile_le
      split: if_splits option.splits dest!: scanString_shorter)

text \<open>The lexer: the tokens of a text, or \<open>None\<close> when some part of it is not JSON.\<close>

function tokenize :: "jsstr \<Rightarrow> token list option" where
  "tokenize s =
     (if s = [] then Some []
      else (case nextToken s of
              None \<Rightarrow> None
            | Some (t, rest) \<Rightarrow>
                (case tokenize rest of
                   None \<Rightarrow> None
                 | Some ts \<Rightarrow> Some (case t of None \<Rightarrow> ts | Some x \<Rightarrow> x # ts))))"
  by pat_completeness auto
termination
  by (relation "measure length") (auto dest: nextToken_shorter)

declare tokenize.simps [simp del]

text \<open>
  The parser, by recursive descent on the tokens. The first argument bounds the depth of
  the recursion; every call reads at least one token, and a result reached with some
  bound is reached with the bound that \<open>JSON_parse\<close> gives (\<open>parseValue_enough\<close>).
\<close>

fun parseValue :: "nat \<Rightarrow> token list \<Rightarrow> (jsval \<times> token list) option"
  and parseElements :: "nat \<Rightarrow> token list \<Rightarrow> (jsval list \<times> token list) option"
  and parseMembers :: "nat \<Rightarrow> token list \<Rightarrow> ((jsstr \<times> jsval) list \<times> token list) option"
  where
  "parseValue 0 ts = None"
| "parseValue (Suc n) ts =
     (case ts of
        TNull # rest \<Rightarrow> Some (VNull, rest)
      | TTrue # rest \<Rightarrow> Some (VBool True, rest)
      | TFalse # rest \<Rightarrow> Some (VBool False, rest)
      | TNumber x # rest \<Rightarrow> Some (VNum x, rest)
      | TString s # rest \<Rightarrow> Some (VStr s, rest)
      | TLBrack # TRBrack # rest \<Rightarrow> Some (VArr [], rest)
      | TLBrack # rest \<Rightarrow> map_option (\<lambda>(vs, rest'). (VArr vs, rest')) (parseElements n rest)
      | TLBrace # TRBrace # rest \<Rightarrow> Some (VObj [], rest)
      | TLBrace # rest \<Rightarrow> map_option (\<lambda>(ms, rest'). (VObj ms, rest')) (parseMembers n rest)
      | _ \<Rightarrow> None)"
| "parseElements 0 ts = None"
| "parseElements (Suc n) ts =
     (case parseValue n ts of
        Some (v, TComma # rest) \<Rightarrow> map_option (\<lambda>(vs, rest'). (v # vs, rest')) (parseElements n rest)
      | Some (v, TRBrack # rest) \<Rightarrow> Some ([v], rest)
      | _ \<Rightarrow> None)"
| "parseMembers 0 ts = None"
| "parseMembers (Suc n) ts =
     (case ts of
        TString k # TColon # rest \<Rightarrow>
          (case parseValue n rest of
             Some (v, TComma # rest') \<Rightarrow>
               map_option (\<lambda>(ms, rest''). ((k, v) # ms, rest'')) (parseMembers n rest')
           | Some (v, TRBrace # rest') \<Rightarrow> Some ([(k, v)], rest')
           | _ \<Rightarrow> None)
      | _ \<Rightarrow> None)"

lemma parseValue_Suc_cases:
  assumes "parseValue (Suc n) ts = Some (v, rest)"
  obtains (prim) "length rest < length ts" "\<And>m. parseValue (Suc m) ts = Some (v, rest)"
    | (arr) r vs where "ts = TLBrack # r" "parseElements n r = Some (vs, rest)" "v = VArr vs"
        "\<And>m. parseValue (Suc m) ts = map_option (\<lambda>(vs, rest'). (VArr vs, rest')) (parseElements m r)"
    | (obj) r ms where "ts = TLBrace # r" "parseMembers n r = Some (ms, rest)" "v = VObj ms"
        "\<And>m. parseValue (Suc m) ts = map_option (\<lambda>(ms, rest'). (VObj ms, rest')) (parseMembers m r)"
  using assms
  by (auto split: list.splits token.splits option.splits)

lemma parseElements_Suc_cases:
  assumes "parseElements (Suc n) ts = Some (vs, rest)"
  obtains (more) v r vs' where "parseValue n ts = Some (v, TComma # r)"
        "parseElements n r = Some (vs', rest)" "vs = v # vs'"
    | (last) v where "parseValue n ts = Some (v, TRBrack # rest)" "vs = [v]"
  using assms
  by (auto split: list.splits token.splits option.splits)

lemma parseMembers_Suc_cases:
  assumes "parseMembers (Suc n) ts = Some (ms, rest)"
  obtains (more) k ts' v r ms' where "ts = TString k # TColon # ts'"
        "parseValue n ts' = Some (v, TComma # r)"
        "parseMembers n r = Some (ms', rest)" "ms = (k, v) # ms'"
    | (last) k ts' v where "ts = TString k # TColon # ts'"
        "parseValue n ts' = Some (v, TRBrace # rest)" "ms = [(k, v)]"
  using assms
  by (auto split: list.splits token.splits option.splits)

text \<open>More fuel does not change a result.\<close>

lemma parse_fuel_Suc:
  "(\<forall>ts x. parseValue n ts = Some x \<longrightarrow> parseValue (Suc n) ts = Some x)
   \<and> (\<forall>ts x. parseElements n ts = Some x \<longrightarrow> parseElements (Suc n) ts = Some x)
   \<and> (\<forall>ts x. parseMembers n ts = Some x \<longrightarrow> parseMembers (Suc n) ts = Some x)"
proof (induction n)
  case 0
  show ?case by simp
next
  case (Suc n)
  have V: "\<And>ts x. parseValue n ts = Some x \<Longrightarrow> parseValue (Suc n) ts = Some x"
    and E: "\<And>ts x. parseElements n ts = Some x \<Longrightarrow> parseElements (Suc n) ts = Some x"
    and M: "\<And>ts x. parseMembers n ts = Some x \<Longrightarrow> parseMembers (Suc n) ts = Some x"
    using Suc.IH by blast+
  have v: "parseValue (Suc (Suc n)) ts = Some x" if "parseValue (Suc n) ts = Some x" for ts x
  proof -
    obtain v rest where x: "x = (v, rest)" by (cases x)
    from that [unfolded x] show ?thesis
    proof (cases rule: parseValue_Suc_cases)
      case prim
      then show ?thesis by (simp only: x)
    next
      case (arr r vs)
      then show ?thesis
        using E [of r "(vs, rest)"] by (simp only: x arr(4)) simp
    next
      case (obj r ms)
      then show ?thesis
        using M [of r "(ms, rest)"] by (simp only: x obj(4)) simp
    qed
  qed
  have e: "parseElements (Suc (Suc n)) ts = Some x" if "parseElements (Suc n) ts = Some x" for ts x
  proof -
    obtain vs rest where x: "x = (vs, rest)" by (cases x)
    from that [unfolded x] show ?thesis
    proof (cases rule: parseElements_Suc_cases)
      case (more v r vs')
      then show ?thesis
        using V [of ts "(v, TComma # r)"] E [of r "(vs', rest)"]
        by (simp add: x del: parseValue.simps parseElements.simps(2) add: parseElements.simps(2) [of "Suc n"])
    next
      case (last v)
      then show ?thesis
        using V [of ts "(v, TRBrack # rest)"]
        by (simp add: x del: parseValue.simps parseElements.simps(2) add: parseElements.simps(2) [of "Suc n"])
    qed
  qed
  have m: "parseMembers (Suc (Suc n)) ts = Some x" if "parseMembers (Suc n) ts = Some x" for ts x
  proof -
    obtain ms rest where x: "x = (ms, rest)" by (cases x)
    from that [unfolded x] show ?thesis
    proof (cases rule: parseMembers_Suc_cases)
      case (more k ts' v r ms')
      then show ?thesis
        using V [of ts' "(v, TComma # r)"] M [of r "(ms', rest)"]
        by (simp add: x del: parseValue.simps parseMembers.simps(2) add: parseMembers.simps(2) [of "Suc n"])
    next
      case (last k ts' v)
      then show ?thesis
        using V [of ts' "(v, TRBrace # rest)"]
        by (simp add: x del: parseValue.simps parseMembers.simps(2) add: parseMembers.simps(2) [of "Suc n"])
    qed
  qed
  show ?case
    using v e m by blast
qed


lemma parse_fuel_le:
  assumes "n \<le> m"
  shows "parseValue n ts = Some x \<Longrightarrow> parseValue m ts = Some x"
    and "parseElements n ts = Some y \<Longrightarrow> parseElements m ts = Some y"
    and "parseMembers n ts = Some z \<Longrightarrow> parseMembers m ts = Some z"
  using assms
proof (induction m rule: dec_induct)
  case base
  { case 1 then show ?case . }
  { case 2 then show ?case . }
  { case 3 then show ?case . }
next
  case (step m)
  { case 1 then show ?case using step.IH(1) parse_fuel_Suc [of m] by blast }
  { case 2 then show ?case using step.IH(2) parse_fuel_Suc [of m] by blast }
  { case 3 then show ?case using step.IH(3) parse_fuel_Suc [of m] by blast }
qed

text \<open>A result is reached with as much fuel as tokens are read.\<close>

lemma parse_consumed:
  "(\<forall>ts v rest. parseValue n ts = Some (v, rest) \<longrightarrow>
      length rest < length ts \<and> parseValue (length ts - length rest) ts = Some (v, rest))
   \<and> (\<forall>ts vs rest. parseElements n ts = Some (vs, rest) \<longrightarrow>
      length rest < length ts \<and> parseElements (length ts - length rest) ts = Some (vs, rest))
   \<and> (\<forall>ts ms rest. parseMembers n ts = Some (ms, rest) \<longrightarrow>
      length rest < length ts \<and> parseMembers (length ts - length rest) ts = Some (ms, rest))"
proof (induction n)
  case 0
  show ?case by simp
next
  case (Suc n)
  have V: "\<And>ts v rest. parseValue n ts = Some (v, rest) \<Longrightarrow>
      length rest < length ts \<and> parseValue (length ts - length rest) ts = Some (v, rest)"
    and E: "\<And>ts vs rest. parseElements n ts = Some (vs, rest) \<Longrightarrow>
      length rest < length ts \<and> parseElements (length ts - length rest) ts = Some (vs, rest)"
    and M: "\<And>ts ms rest. parseMembers n ts = Some (ms, rest) \<Longrightarrow>
      length rest < length ts \<and> parseMembers (length ts - length rest) ts = Some (ms, rest)"
    using Suc.IH by blast+
  have v: "length rest < length ts \<and> parseValue (length ts - length rest) ts = Some (v, rest)"
    if "parseValue (Suc n) ts = Some (v, rest)" for ts v rest
    using that
  proof (cases rule: parseValue_Suc_cases)
    case prim
    obtain c where c: "length ts - length rest = Suc c"
      using prim(1) by (metis Suc_diff_Suc)
    show ?thesis
      using prim c by simp
  next
    case (arr r vs)
    have sub: "length rest < length r" "parseElements (length r - length rest) r = Some (vs, rest)"
      using E [OF arr(2)] by simp_all
    have c: "length ts - length rest = Suc (length r - length rest)"
      using sub(1) arr(1) by simp
    have l: "length rest < length ts"
      using sub(1) arr(1) by simp
    have p: "parseValue (Suc (length r - length rest)) ts = Some (v, rest)"
      using sub(2) arr(3) by (simp only: arr(4)) simp
    from l p show ?thesis
      unfolding c by simp
  next
    case (obj r ms)
    have sub: "length rest < length r" "parseMembers (length r - length rest) r = Some (ms, rest)"
      using M [OF obj(2)] by simp_all
    have c: "length ts - length rest = Suc (length r - length rest)"
      using sub(1) obj(1) by simp
    have l: "length rest < length ts"
      using sub(1) obj(1) by simp
    have p: "parseValue (Suc (length r - length rest)) ts = Some (v, rest)"
      using sub(2) obj(3) by (simp only: obj(4)) simp
    from l p show ?thesis
      unfolding c by simp
  qed
  have e: "length rest < length ts \<and> parseElements (length ts - length rest) ts = Some (vs, rest)"
    if "parseElements (Suc n) ts = Some (vs, rest)" for ts vs rest
    using that
  proof (cases rule: parseElements_Suc_cases)
    case (more v r vs')
    define cv where "cv = length ts - length (TComma # r)"
    define cr where "cr = length r - length rest"
    have a: "length (TComma # r) < length ts" "parseValue cv ts = Some (v, TComma # r)"
      using V [OF more(1)] by (simp_all add: cv_def)
    have b: "length rest < length r" "parseElements cr r = Some (vs', rest)"
      using E [OF more(2)] by (simp_all add: cr_def)
    have c: "length ts - length rest = Suc (cv + cr)"
      using a(1) b(1) by (simp add: cv_def cr_def)
    have pv: "parseValue (cv + cr) ts = Some (v, TComma # r)"
      using parse_fuel_le(1) [OF _ a(2), of "cv + cr"] by simp
    have pe: "parseElements (cv + cr) r = Some (vs', rest)"
      using parse_fuel_le(2) [OF _ b(2), of "cv + cr"] by simp
    have "parseElements (Suc (cv + cr)) ts = Some (vs, rest)"
      by (simp add: pv pe more(3))
    then show ?thesis
      using a(1) b(1) unfolding c by simp
  next
    case (last v)
    define cv where "cv = length ts - length (TRBrack # rest)"
    have a: "length (TRBrack # rest) < length ts" "parseValue cv ts = Some (v, TRBrack # rest)"
      using V [OF last(1)] by (simp_all add: cv_def)
    have c: "length ts - length rest = Suc cv"
      using a(1) by (simp add: cv_def)
    have "parseElements (Suc cv) ts = Some (vs, rest)"
      by (simp add: a(2) last(2))
    then show ?thesis
      using a(1) unfolding c by simp
  qed
  have m: "length rest < length ts \<and> parseMembers (length ts - length rest) ts = Some (ms, rest)"
    if "parseMembers (Suc n) ts = Some (ms, rest)" for ts ms rest
    using that
  proof (cases rule: parseMembers_Suc_cases)
    case (more k ts' v r ms')
    define cv where "cv = length ts' - length (TComma # r)"
    define cr where "cr = length r - length rest"
    have a: "length (TComma # r) < length ts'" "parseValue cv ts' = Some (v, TComma # r)"
      using V [OF more(2)] by (simp_all add: cv_def)
    have b: "length rest < length r" "parseMembers cr r = Some (ms', rest)"
      using M [OF more(3)] by (simp_all add: cr_def)
    have le: "Suc (cv + cr) \<le> length ts - length rest"
      using a(1) b(1) more(1) by (simp add: cv_def cr_def)
    have pv: "parseValue (cv + cr) ts' = Some (v, TComma # r)"
      using parse_fuel_le(1) [OF _ a(2), of "cv + cr"] by simp
    have pm: "parseMembers (cv + cr) r = Some (ms', rest)"
      using parse_fuel_le(3) [OF _ b(2), of "cv + cr"] by simp
    have "parseMembers (Suc (cv + cr)) ts = Some (ms, rest)"
      by (simp add: more(1) pv pm more(4))
    then have "parseMembers (length ts - length rest) ts = Some (ms, rest)"
      using parse_fuel_le(3) [OF le] by blast
    then show ?thesis
      using a(1) b(1) more(1) by simp
  next
    case (last k ts' v)
    define cv where "cv = length ts' - length (TRBrace # rest)"
    have a: "length (TRBrace # rest) < length ts'" "parseValue cv ts' = Some (v, TRBrace # rest)"
      using V [OF last(2)] by (simp_all add: cv_def)
    have le: "Suc cv \<le> length ts - length rest"
      using a(1) last(1) by (simp add: cv_def)
    have "parseMembers (Suc cv) ts = Some (ms, rest)"
      by (simp add: last(1) a(2) last(3))
    then have "parseMembers (length ts - length rest) ts = Some (ms, rest)"
      using parse_fuel_le(3) [OF le] by blast
    then show ?thesis
      using a(1) last(1) by simp
  qed
  show ?case
    using v e m by blast
qed

lemma parseValue_enough:
  assumes "parseValue n ts = Some (v, rest)"
  shows "parseValue (2 * length ts + 2) ts = Some (v, rest)"
proof -
  have "parseValue (length ts - length rest) ts = Some (v, rest)"
    using parse_consumed [of n] assms by blast
  moreover have "length ts - length rest \<le> 2 * length ts + 2"
    by simp
  ultimately show ?thesis
    using parse_fuel_le(1) by blast
qed

text \<open>\<open>JSON.parse(text)\<close>; \<open>None\<close> is the \<open>SyntaxError\<close>.\<close>

definition JSON_parse :: "jsstr \<Rightarrow> jsval option" where
  "JSON_parse text =
     (case tokenize text of
        None \<Rightarrow> None
      | Some ts \<Rightarrow>
          (case parseValue (2 * length ts + 2) ts of
             Some (v, []) \<Rightarrow> Some v
           | _ \<Rightarrow> None))"

lemma JSON_parse_iff:
  "JSON_parse text = Some v \<longleftrightarrow> (\<exists>ts n. tokenize text = Some ts \<and> parseValue n ts = Some (v, []))"
proof
  assume "JSON_parse text = Some v"
  then show "\<exists>ts n. tokenize text = Some ts \<and> parseValue n ts = Some (v, [])"
    by (auto simp: JSON_parse_def simp del: parseValue.simps mult_Suc_right
        split: option.splits prod.splits list.splits)
next
  assume "\<exists>ts n. tokenize text = Some ts \<and> parseValue n ts = Some (v, [])"
  then obtain ts n where "tokenize text = Some ts" "parseValue n ts = Some (v, [])"
    by blast
  then show "JSON_parse text = Some v"
    using parseValue_enough [of n ts v "[]"] by (simp add: JSON_parse_def)
qed

definition dq :: jsstr where
  "dq = [0x22]"

definition samplePayload :: jsstr where
  "samplePayload = js ''{'' @ dq @ js ''quote'' @ dq @ js '': '' @ dq @ js ''Panta rhei'' @ dq
     @ js '', '' @ dq @ js ''n'' @ dq @ js '': [1.5e1, true, null]}''"

lemma sample_tokens:
  "tokenize samplePayload = Some [TLBrace, TString (js ''quote''), TColon, TString (js ''Panta rhei''),
     TComma, TString (js ''n''), TColon, TLBrack, TNumber 15, TComma, TTrue, TComma, TNull,
     TRBrack, TRBrace]"
  by (simp add: samplePayload_def dq_def js_def tokenize.simps nextToken_def isJsonWs_def
      isDigit_def isNumChar_def parseNumber_def parseExponent_def digitsValue_def startsWith_def)

lemma sample_parse:
  "JSON_parse samplePayload = Some (VObj [(js ''quote'', VStr (js ''Panta rhei'')),
     (js ''n'', VArr [VNum 15, VBool True, VNull])])"
  by (simp add: JSON_parse_def sample_tokens eval_nat_numeral)

subsection \<open>White space around a JSON text\<close>

lemma ws_unat: "isWhiteSpace c \<Longrightarrow> unat c \<le> 13 \<or> unat c = 32 \<or> 160 \<le> unat c"
  unfolding isWhiteSpace_def word_le_nat_alt
  by (elim disjE conjE) simp_all

lemma ws_not_token_start:
  assumes "isWhiteSpace c"
  shows "c \<noteq> 0x7B" "c \<noteq> 0x7D" "c \<noteq> 0x5B" "c \<noteq> 0x5D" "c \<noteq> 0x2C" "c \<noteq> 0x3A"
    "c \<noteq> 0x22" "c \<noteq> 0x5C" "c \<noteq> 0x2D" "\<not> isDigit c" "c \<noteq> 0x74" "c \<noteq> 0x66" "c \<noteq> 0x6E"
    "\<not> isNumChar c" "c \<noteq> 0x60" "c \<noteq> 0x75" "c \<noteq> 0x6A" "escapeChar c = None" "hexDigit c = None"
  using ws_unat [OF assms]
  by (auto simp: isDigit_def isNumChar_def escapeChar_def hexDigit_def word_le_nat_alt)

lemma jsonWs_is_ws: "isJsonWs c \<Longrightarrow> isWhiteSpace c"
  by (auto simp: isJsonWs_def isWhiteSpace_def)

lemma startsWith_Cons: "startsWith (c # cs) (p # ps) \<longleftrightarrow> c = p \<and> startsWith cs ps"
  by (simp add: startsWith_def)

text \<open>On a white-space character the lexer skips it or fails.\<close>

lemma nextToken_ws:
  assumes "isWhiteSpace c"
  shows "nextToken (c # cs) = (if isJsonWs c then Some (None, cs) else None)"
  using ws_not_token_start [OF assms]
  by (simp add: nextToken_def js_Cons startsWith_Cons)

lemma tokenize_Nil: "tokenize [] = Some []"
  by (simp add: tokenize.simps)

lemma tokenize_ws_Cons:
  "isWhiteSpace c \<Longrightarrow> tokenize (c # cs) = (if isJsonWs c then tokenize cs else None)"
  by (subst tokenize.simps) (simp add: nextToken_ws split: option.splits)

lemma tokenize_all_ws:
  "list_all isWhiteSpace w \<Longrightarrow> tokenize w = Some ts \<Longrightarrow> ts = []"
proof (induction w)
  case Nil
  then show ?case by (simp add: tokenize_Nil)
next
  case (Cons c w)
  then show ?case
    by (simp add: tokenize_ws_Cons split: if_splits)
qed

lemma tokenize_dropWhile_ws:
  "tokenize P = Some ts \<Longrightarrow> tokenize (dropWhile isWhiteSpace P) = Some ts"
proof (induction P)
  case Nil
  then show ?case by simp
next
  case (Cons c P)
  then show ?case
    by (cases "isWhiteSpace c") (simp_all add: tokenize_ws_Cons split: if_splits)
qed

text \<open>White space after a text is not read into a string, a number or a literal.\<close>

lemma scanString_all_ws: "list_all isWhiteSpace w \<Longrightarrow> scanString w = None"
proof (induction w)
  case Nil
  show ?case by simp
next
  case (Cons c w)
  then show ?case
    using ws_not_token_start(7,8) [of c] by simp
qed

lemma hex4_length: "hex4 s = Some u \<Longrightarrow> length s = 4 \<and> (\<forall>c\<in>set s. hexDigit c \<noteq> None)"
  by (auto simp: hex4_def split: list.splits option.splits)

lemma hex4_take_append:
  assumes "list_all isWhiteSpace w" and "hex4 (take 4 (es @ w)) = Some u"
  shows "4 \<le> length es"
proof (rule ccontr)
  assume "\<not> 4 \<le> length es"
  then have short: "length es < 4" by simp
  have len: "length (take 4 (es @ w)) = 4" and hex: "\<forall>c\<in>set (take 4 (es @ w)). hexDigit c \<noteq> None"
    using hex4_length [OF assms(2)] by simp_all
  have "take 4 (es @ w) = es @ take (4 - length es) w"
    using short by simp
  moreover have "take (4 - length es) w \<noteq> []"
    using len short calculation by auto
  ultimately obtain c where c: "c \<in> set (take (4 - length es) w)" "c \<in> set (take 4 (es @ w))"
    by (metis Un_iff last_in_set set_append)
  have "isWhiteSpace c"
    using c(1) assms(1) by (meson in_set_takeD list_all_iff)
  then show False
    using hex c(2) ws_not_token_start(19) by blast
qed

lemma scanString_suffix:
  assumes "list_all isWhiteSpace w"
  shows "scanString (cs @ w) = Some (v, r) \<Longrightarrow> \<exists>r'. r = r' @ w \<and> scanString cs = Some (v, r')"
proof (induction cs arbitrary: v r rule: scanString.induct)
  case 1
  then show ?case
    using scanString_all_ws [OF assms] by simp
next
  case (2 c cs)
  show ?case
  proof (cases "c = 0x22")
    case True
    then show ?thesis using "2.prems" by simp
  next
    case notq: False
    show ?thesis
    proof (cases "c = 0x5C")
      case bs: True
      show ?thesis
      proof (cases cs)
        case Nil
        have "scanString (c # w) = None"
        proof (cases w)
          case Nil
          then show ?thesis using bs by simp
        next
          case (Cons e es)
          then have "isWhiteSpace e" using assms by simp
          then show ?thesis
            using bs Cons ws_not_token_start(16,18) [of e] by simp
        qed
        then show ?thesis using "2.prems" Nil by simp
      next
        case (Cons e es)
        show ?thesis
        proof (cases "e = 0x75")
          case u: True
          obtain uu v' where h: "hex4 (take 4 (es @ w)) = Some uu"
            "scanString (drop 4 (es @ w)) = Some (v', r)" "v = uu # v'"
            using "2.prems" notq bs Cons u by (auto split: option.splits)
          have long: "4 \<le> length es"
            using hex4_take_append [OF assms h(1)] .
          have h1: "hex4 (take 4 es) = Some uu" and h2: "scanString (drop 4 es @ w) = Some (v', r)"
            using h long by simp_all
          obtain r' where "r = r' @ w" "scanString (drop 4 es) = Some (v', r')"
            using "2.IH"(1) [OF notq bs Cons u h1 h2] by blast
          then show ?thesis
            using notq bs Cons u h1 h(3) by simp
        next
          case nu: False
          obtain x v' where h: "escapeChar e = Some x" "scanString (es @ w) = Some (v', r)"
            "v = x # v'"
            using "2.prems" notq bs Cons nu by (auto split: option.splits)
          obtain r' where "r = r' @ w" "scanString es = Some (v', r')"
            using "2.IH"(2) [OF notq bs Cons nu h(1) h(2)] by blast
          then show ?thesis
            using notq bs Cons nu h(1,3) by simp
        qed
      qed
    next
      case nb: False
      have ctl: "\<not> c < 0x20"
        using "2.prems" notq nb by (auto split: if_splits)
      obtain v' where h: "scanString (cs @ w) = Some (v', r)" "v = c # v'"
        using "2.prems" notq nb ctl by auto
      obtain r' where "r = r' @ w" "scanString cs = Some (v', r')"
        using "2.IH"(3) [OF notq nb ctl h(1)] by blast
      then show ?thesis
        using notq nb ctl h(2) by simp
    qed
  qed
qed

lemma takeWhile_numchar_ws:
  assumes "list_all isWhiteSpace w"
  shows "takeWhile isNumChar (cs @ w) = takeWhile isNumChar cs"
    and "dropWhile isNumChar (cs @ w) = dropWhile isNumChar cs @ w"
proof -
  have w: "takeWhile isNumChar w = []" "dropWhile isNumChar w = w"
    using assms ws_not_token_start(14) by (cases w; simp)+
  show "takeWhile isNumChar (cs @ w) = takeWhile isNumChar cs"
    by (induction cs) (simp_all add: w)
  show "dropWhile isNumChar (cs @ w) = dropWhile isNumChar cs @ w"
    by (induction cs) (simp_all add: w)
qed

lemma startsWith_suffix:
  assumes "list_all isWhiteSpace w" and "\<forall>c\<in>set p. \<not> isWhiteSpace c"
    and "startsWith (Q @ w) p"
  shows "startsWith Q p \<and> drop (length p) (Q @ w) = drop (length p) Q @ w"
proof -
  have "length p \<le> length Q"
  proof (rule ccontr)
    assume "\<not> length p \<le> length Q"
    then have short: "length Q < length p" by simp
    have eq: "p = Q @ take (length p - length Q) w"
      using assms(3) short by (auto simp: startsWith_def)
    have "take (length p - length Q) w \<noteq> []"
      using eq short by auto
    then obtain c where c: "c \<in> set (take (length p - length Q) w)"
      by (meson last_in_set)
    have "isWhiteSpace c"
      using c assms(1) by (meson in_set_takeD list_all_iff)
    moreover have "c \<in> set p"
      using c eq by (metis Un_iff set_append)
    ultimately show False
      using assms(2) by blast
  qed
  then show ?thesis
    using assms(3) by (simp add: startsWith_def)
qed

lemma literal_no_ws:
  "\<forall>c\<in>set (js ''true''). \<not> isWhiteSpace c"
  "\<forall>c\<in>set (js ''false''). \<not> isWhiteSpace c"
  "\<forall>c\<in>set (js ''null''). \<not> isWhiteSpace c"
  by (simp_all add: js_def isWhiteSpace_def)

lemma literal_length:
  "length (js ''true'') = 4" "length (js ''false'') = 5" "length (js ''null'') = 4"
  by (simp_all add: js_def)

lemma startsWith_extend: "startsWith Q p \<Longrightarrow> startsWith (Q @ w) p"
  by (metis append.assoc append_take_drop_id append_eq_conv_conj startsWith_def)

lemma nextToken_suffix:
  assumes "list_all isWhiteSpace w" and "Q \<noteq> []" and "nextToken (Q @ w) = Some (t, r)"
  shows "\<exists>r'. r = r' @ w \<and> nextToken Q = Some (t, r')"
proof -
  obtain c cs where Q: "Q = c # cs"
    using assms(2) by (cases Q) auto
  have lit: "\<And>p. \<forall>c\<in>set p. \<not> isWhiteSpace c \<Longrightarrow> startsWith (c # cs @ w) p \<Longrightarrow>
      startsWith (c # cs) p \<and> drop (length p) (c # cs @ w) = drop (length p) (c # cs) @ w"
    using startsWith_suffix [OF assms(1), of _ "c # cs"] by simp
  have num: "takeWhile isNumChar (cs @ w) = takeWhile isNumChar cs"
    "dropWhile isNumChar (cs @ w) = dropWhile isNumChar cs @ w"
    using takeWhile_numchar_ws [OF assms(1)] by simp_all
  have str: "\<And>v r. scanString (cs @ w) = Some (v, r) \<Longrightarrow>
      \<exists>r'. r = r' @ w \<and> scanString cs = Some (v, r')"
    using scanString_suffix [OF assms(1)] by blast
  have nt: "nextToken (c # cs @ w) = Some (t, r)"
    using assms(3) Q by simp
  have mono: "\<And>p. \<not> startsWith (c # cs @ w) p \<Longrightarrow> \<not> startsWith (c # cs) p"
    using startsWith_extend [of "c # cs" _ w] by auto
  show ?thesis
  proof (cases "isJsonWs c \<or> c = 0x7B \<or> c = 0x7D \<or> c = 0x5B \<or> c = 0x5D \<or> c = 0x2C \<or> c = 0x3A")
    case True
    then show ?thesis
      using nt Q by (auto simp: nextToken_def split: if_splits)
  next
    case simple: False
    show ?thesis
    proof (cases "c = 0x22")
      case True
      then obtain v where "scanString (cs @ w) = Some (v, r)" "t = Some (TString v)"
        using nt simple by (auto simp: nextToken_def split: option.splits)
      then show ?thesis
        using str [of v r] simple True Q by (auto simp: nextToken_def)
    next
      case notq: False
      show ?thesis
      proof (cases "c = 0x2D \<or> isDigit c")
        case True
        then show ?thesis
          using nt simple notq Q num by (auto simp: nextToken_def split: option.splits)
      next
        case notnum: False
        have a: "startsWith (c # cs @ w) (js ''true'') \<Longrightarrow> ?thesis"
          using lit [OF literal_no_ws(1)] nt simple notq notnum Q
          by (simp add: nextToken_def literal_length)
        have b: "\<not> startsWith (c # cs @ w) (js ''true'') \<Longrightarrow>
                 startsWith (c # cs @ w) (js ''false'') \<Longrightarrow> ?thesis"
          using lit [OF literal_no_ws(2)] nt simple notq notnum Q mono
          by (simp add: nextToken_def literal_length)
        have c: "\<not> startsWith (c # cs @ w) (js ''true'') \<Longrightarrow>
                 \<not> startsWith (c # cs @ w) (js ''false'') \<Longrightarrow>
                 startsWith (c # cs @ w) (js ''null'') \<Longrightarrow> ?thesis"
          using lit [OF literal_no_ws(3)] nt simple notq notnum Q mono
          by (simp add: nextToken_def literal_length)
        have d: "\<not> startsWith (c # cs @ w) (js ''true'') \<Longrightarrow>
                 \<not> startsWith (c # cs @ w) (js ''false'') \<Longrightarrow>
                 \<not> startsWith (c # cs @ w) (js ''null'') \<Longrightarrow> ?thesis"
          using nt simple notq notnum by (simp add: nextToken_def)
        show ?thesis
          using a b c d by blast
      qed
    qed
  qed
qed

lemma tokenize_suffix:
  assumes "list_all isWhiteSpace w"
  shows "tokenize (Q @ w) = Some ts \<Longrightarrow> tokenize Q = Some ts"
proof (induction "length Q" arbitrary: Q ts rule: less_induct)
  case less
  show ?case
  proof (cases "Q = []")
    case True
    then show ?thesis
      using less.prems tokenize_all_ws [OF assms] by (simp add: tokenize_Nil)
  next
    case False
    then have ne: "Q @ w \<noteq> []" by simp
    obtain t r ts' where step: "nextToken (Q @ w) = Some (t, r)" "tokenize r = Some ts'"
      "ts = (case t of None \<Rightarrow> ts' | Some x \<Rightarrow> x # ts')"
      using less.prems ne
      by (subst (asm) tokenize.simps) (auto split: option.splits)
    obtain r' where r': "r = r' @ w" "nextToken Q = Some (t, r')"
      using nextToken_suffix [OF assms False step(1)] by blast
    have "length r' < length Q"
      using nextToken_shorter [OF r'(2)] .
    then have "tokenize r' = Some ts'"
      using less.hyps step(2) r'(1) by blast
    then show ?thesis
      using False r'(2) step(3) by (subst tokenize.simps) simp
  qed
qed

lemma tokenize_trim: "tokenize P = Some ts \<Longrightarrow> tokenize (trim P) = Some ts"
proof -
  assume tok: "tokenize P = Some ts"
  define Q0 where "Q0 = dropWhile isWhiteSpace P"
  define w where "w = rev (takeWhile isWhiteSpace (rev Q0))"
  have split: "Q0 = trim P @ w"
  proof -
    have "rev Q0 = takeWhile isWhiteSpace (rev Q0) @ dropWhile isWhiteSpace (rev Q0)"
      by simp
    then have "rev (rev Q0) = rev (dropWhile isWhiteSpace (rev Q0)) @ rev (takeWhile isWhiteSpace (rev Q0))"
      by (metis rev_append)
    then show ?thesis
      by (simp add: trim_def Q0_def w_def)
  qed
  have ws: "list_all isWhiteSpace w"
    unfolding w_def list_all_iff using set_takeWhileD by fastforce
  have "tokenize Q0 = Some ts"
    using tok by (simp add: Q0_def tokenize_dropWhile_ws)
  then show ?thesis
    using tokenize_suffix [OF ws, of "trim P" ts] split by simp
qed

lemma JSON_parse_trim: "JSON_parse P = Some v \<Longrightarrow> JSON_parse (trim P) = Some v"
proof -
  assume p: "JSON_parse P = Some v"
  then obtain ts where ts: "tokenize P = Some ts"
    by (auto simp: JSON_parse_def split: option.splits)
  show ?thesis
    using p tokenize_trim [OF ts] ts by (simp add: JSON_parse_def)
qed

text \<open>A JSON text does not begin with the letter \<open>j\<close>.\<close>

lemma tokenize_not_j: "tokenize (c # cs) = Some ts \<Longrightarrow> c \<noteq> 0x6A"
proof
  assume tok: "tokenize (c # cs) = Some ts" and j: "c = 0x6A"
  have "nextToken (c # cs) = None"
    by (simp add: j nextToken_def isJsonWs_def isDigit_def js_Cons startsWith_Cons)
  then show False
    using tok by (subst (asm) tokenize.simps) simp
qed

lemma trim_core:
  assumes "list_all isWhiteSpace a" and "list_all isWhiteSpace b"
    and "x \<noteq> []" and "\<not> isWhiteSpace (hd x)" and "\<not> isWhiteSpace (last x)"
  shows "trim (a @ x @ b) = x"
proof -
  have "dropWhile isWhiteSpace (a @ x @ b) = dropWhile isWhiteSpace (x @ b)"
    using assms(1) by (simp add: dropWhile_append2 list_all_iff)
  also have "\<dots> = x @ b"
    using assms(3,4) by (cases x) simp_all
  finally have front: "dropWhile isWhiteSpace (a @ x @ b) = x @ b" .
  have "dropWhile isWhiteSpace (rev b @ rev x) = dropWhile isWhiteSpace (rev x)"
    using assms(2) dropWhile_append2 [of "rev b" isWhiteSpace "rev x"]
    by (simp add: list_all_iff)
  also have "\<dots> = rev x"
    using assms(3,5) by (cases "rev x") (simp_all add: hd_rev [symmetric])
  finally show ?thesis
    by (simp add: trim_def front)
qed

subsection \<open>A fenced payload\<close>

lemma fence_units: "fence = [0x60, 0x60, 0x60]" "fenceJson = fence @ js ''json''"
  by (simp_all add: fence_def fenceJson_def js_def)

lemma replaceAtStart_append: "replaceAtStart p (p @ s) = s"
  by (simp add: replaceAtStart_def startsWith_def)

lemma replaceAtEnd_append: "replaceAtEnd p (s @ p) = s"
  by (simp add: replaceAtEnd_def endsWith_def)

lemma startsWith_same_prefix: "startsWith (p @ s) (p @ q) \<longleftrightarrow> startsWith s q"
  by (simp add: startsWith_def)

lemma fenced_core:
  assumes "list_all isWhiteSpace before" and "list_all isWhiteSpace after"
    and "opening = fenceJson \<or> opening = fence"
  shows "trim (before @ opening @ P @ fence @ after) = opening @ P @ fence"
proof -
  have hd: "hd (opening @ P @ fence) = 0x60" and last: "last (opening @ P @ fence) = 0x60"
    and ne: "opening @ P @ fence \<noteq> []"
    using assms(3) by (auto simp: fence_units)
  have "\<not> isWhiteSpace 0x60"
    by (simp add: isWhiteSpace_def)
  then show ?thesis
    using trim_core [OF assms(1,2) ne] hd last by simp
qed

lemma cleanJsonString_fenced_trim:
  assumes "list_all isWhiteSpace before" and "list_all isWhiteSpace after"
    and "opening = fenceJson \<or> opening = fence \<and> \<not> startsWith (P @ fence) (js ''json'')"
  shows "cleanJsonString (Some (before @ opening @ P @ fence @ after)) = trim P"
proof -
  have core: "trim (before @ opening @ P @ fence @ after) = opening @ P @ fence"
    using fenced_core [OF assms(1,2)] assms(3) by blast
  have ne: "fence \<noteq> []"
    by (simp add: fence_units)
  show ?thesis
  proof (cases "opening = fenceJson")
    case True
    have "startsWith (fenceJson @ P @ fence) fenceJson"
      by (simp add: startsWith_def)
    moreover have "replaceAtEnd fence (replaceAtStart fenceJson (fenceJson @ P @ fence)) = P"
      using replaceAtEnd_append [of fence P] by (simp add: replaceAtStart_append)
    ultimately show ?thesis
      using core ne True by (simp add: cleanJsonString_def)
  next
    case False
    then have op: "opening = fence" and nj: "\<not> startsWith (P @ fence) (js ''json'')"
      using assms(3) by auto
    have "\<not> startsWith (fence @ P @ fence) fenceJson"
      using nj startsWith_same_prefix [of fence "P @ fence" "js ''json''"]
      by (simp add: fence_units(2))
    moreover have "startsWith (fence @ P @ fence) fence"
      by (simp add: startsWith_def)
    moreover have "replaceAtEnd fence (replaceAtStart fence (fence @ P @ fence)) = P"
      using replaceAtEnd_append [of fence P] by (simp add: replaceAtStart_append)
    ultimately show ?thesis
      using core ne op by (simp add: cleanJsonString_def)
  qed
qed

lemma last_dropWhile: "dropWhile Q xs \<noteq> [] \<Longrightarrow> last (dropWhile Q xs) = last xs"
  by (metis last_appendR takeWhile_dropWhile_id)

lemma trim_ends:
  assumes "trim s \<noteq> []"
  shows "\<not> isWhiteSpace (hd (trim s))" and "\<not> isWhiteSpace (last (trim s))"
proof -
  define Q0 where "Q0 = dropWhile isWhiteSpace s"
  have t: "trim s = rev (dropWhile isWhiteSpace (rev Q0))"
    by (simp add: trim_def Q0_def)
  have ne: "dropWhile isWhiteSpace (rev Q0) \<noteq> []" and q0: "Q0 \<noteq> []"
    using assms t by auto
  have "last (trim s) = hd (dropWhile isWhiteSpace (rev Q0))"
    using ne by (simp add: t last_rev)
  then show "\<not> isWhiteSpace (last (trim s))"
    using hd_dropWhile [OF ne] by simp
  have "hd (trim s) = last (dropWhile isWhiteSpace (rev Q0))"
    using ne by (simp add: t hd_rev)
  also have "\<dots> = last (rev Q0)"
    using ne by (rule last_dropWhile)
  also have "\<dots> = hd Q0"
    using q0 by (simp add: last_rev)
  finally show "\<not> isWhiteSpace (hd (trim s))"
    using hd_dropWhile [of isWhiteSpace s] q0 by (simp add: Q0_def)
qed

lemma trim_decomp:
  "\<exists>l r. s = l @ trim s @ r \<and> list_all isWhiteSpace l \<and> list_all isWhiteSpace r"
proof -
  define Q0 where "Q0 = dropWhile isWhiteSpace s"
  define l where "l = takeWhile isWhiteSpace s"
  define r where "r = rev (takeWhile isWhiteSpace (rev Q0))"
  have "rev Q0 = takeWhile isWhiteSpace (rev Q0) @ dropWhile isWhiteSpace (rev Q0)"
    by simp
  then have "rev (rev Q0) = rev (dropWhile isWhiteSpace (rev Q0)) @ r"
    unfolding r_def by (metis rev_append)
  then have "Q0 = trim s @ r"
    by (simp add: trim_def Q0_def)
  then have "s = l @ trim s @ r"
    unfolding l_def using takeWhile_dropWhile_id [of isWhiteSpace s] by (simp add: Q0_def)
  moreover have "list_all isWhiteSpace l"
    unfolding l_def list_all_iff using set_takeWhileD by fastforce
  moreover have "list_all isWhiteSpace r"
    unfolding r_def list_all_iff using set_takeWhileD by fastforce
  ultimately show ?thesis by blast
qed

lemma trim_padded:
  assumes "list_all isWhiteSpace a" and "list_all isWhiteSpace b" and "trim s \<noteq> []"
  shows "trim (a @ s @ b) = trim s"
proof -
  obtain l r where d: "s = l @ trim s @ r" "list_all isWhiteSpace l" "list_all isWhiteSpace r"
    using trim_decomp by blast
  have e1: "a @ s @ b = (a @ l) @ trim s @ (r @ b)"
    using d(1) by (metis append.assoc)
  have e2: "trim ((a @ l) @ trim s @ (r @ b)) = trim s"
    using assms d(2,3) trim_ends [OF assms(3)] by (intro trim_core) simp_all
  show ?thesis
    by (subst e1) (rule e2)
qed

lemma JSON_parse_nonempty: "JSON_parse s = Some v \<Longrightarrow> s \<noteq> []"
  by (auto simp: JSON_parse_def tokenize_Nil)

lemma json_not_json_prefix:
  assumes "tokenize P = Some ts" and "P \<noteq> []" and "list_all isWhiteSpace inner"
  shows "\<not> startsWith ((inner @ P @ rest) @ fence) (js ''json'')"
proof (cases inner)
  case Nil
  obtain c cs where P: "P = c # cs"
    using assms(2) by (cases P) auto
  then have "c \<noteq> 0x6A"
    using assms(1) tokenize_not_j by blast
  then show ?thesis
    using Nil P by (simp add: js_Cons startsWith_Cons)
next
  case (Cons c cs)
  then have "isWhiteSpace c"
    using assms(3) by simp
  then have "c \<noteq> 0x6A"
    by (rule ws_not_token_start)
  then show ?thesis
    using Cons by (simp add: js_Cons startsWith_Cons)
qed

text \<open>
  C5: for a text \<open>P\<close> that parses as JSON, wrapping it in a fence, opened by
  \<open>```json\<close> or by \<open>```\<close> and closed by \<open>```\<close>, with any white space around the
  fences and between the fences and \<open>P\<close>, gives a string that \<open>cleanJsonString\<close> turns
  into \<open>P\<close> without its outer white space, and that text parses to the value \<open>P\<close>
  parses to.
\<close>

theorem cleanJsonString_fenced:
  assumes "JSON_parse P = Some v"
    and "list_all isWhiteSpace before" and "list_all isWhiteSpace after"
    and "list_all isWhiteSpace inner1" and "list_all isWhiteSpace inner2"
    and "opening = fenceJson \<or> opening = fence"
  shows "cleanJsonString (Some (before @ opening @ (inner1 @ P @ inner2) @ fence @ after)) = trim P
       \<and> JSON_parse (cleanJsonString
             (Some (before @ opening @ (inner1 @ P @ inner2) @ fence @ after))) = Some v"
proof -
  obtain ts where ts: "tokenize P = Some ts"
    using assms(1) by (auto simp: JSON_parse_def split: option.splits)
  have parsed: "JSON_parse (trim P) = Some v"
    using JSON_parse_trim [OF assms(1)] .
  then have core: "trim P \<noteq> []"
    by (rule JSON_parse_nonempty)
  then have ne: "P \<noteq> []"
    by (auto simp: trim_def)
  have "opening = fenceJson
        \<or> opening = fence \<and> \<not> startsWith ((inner1 @ P @ inner2) @ fence) (js ''json'')"
    using assms(6) json_not_json_prefix [OF ts ne assms(4)] by blast
  then have "cleanJsonString (Some (before @ opening @ (inner1 @ P @ inner2) @ fence @ after))
             = trim (inner1 @ P @ inner2)"
    using cleanJsonString_fenced_trim [OF assms(2,3)] by blast
  also have "\<dots> = trim P"
    using assms(4,5) core by (rule trim_padded)
  finally show ?thesis
    using parsed by simp
qed

definition fencedSample :: jsstr where
  "fencedSample = js ''  '' @ fenceJson @ ([0xA0] @ ([0x0A] @ samplePayload @ [0x0A]) @ [])
     @ fence @ [0x0A]"

lemma sample_parse_lines:
  "JSON_parse ([0x0A] @ samplePayload @ [0x0A]) = Some (VObj [(js ''quote'', VStr (js ''Panta rhei'')),
     (js ''n'', VArr [VNum 15, VBool True, VNull])])"
proof -
  have "tokenize ([0x0A] @ samplePayload @ [0x0A]) = tokenize samplePayload"
    unfolding sample_tokens
    by (simp add: samplePayload_def dq_def js_def tokenize.simps nextToken_def isJsonWs_def
        isDigit_def isNumChar_def parseNumber_def parseExponent_def digitsValue_def startsWith_def)
  then show ?thesis
    using sample_parse by (simp add: JSON_parse_def)
qed

theorem cleanJsonString_fenced_witness:
  "JSON_parse (cleanJsonString (Some fencedSample)) =
     Some (VObj [(js ''quote'', VStr (js ''Panta rhei'')),
                 (js ''n'', VArr [VNum 15, VBool True, VNull])])
   \<and> JSON_parse (cleanJsonString (Some (fence @ js ''[]'' @ fence))) = Some (VArr [])"
proof -
  have a: "list_all isWhiteSpace (js ''  '')" "list_all isWhiteSpace [0x0A]"
    "list_all isWhiteSpace []" "list_all isWhiteSpace [0xA0]"
    by (simp_all add: js_def isWhiteSpace_def)
  have "tokenize (js ''[]'') = Some [TLBrack, TRBrack]"
    by (simp add: js_def tokenize.simps nextToken_def isJsonWs_def)
  then have b: "JSON_parse (js ''[]'') = Some (VArr [])"
    by (simp add: JSON_parse_def eval_nat_numeral)
  show ?thesis
    using cleanJsonString_fenced [OF sample_parse_lines a(1) a(2) a(4) a(3), of fenceJson,
        THEN conjunct2]
      cleanJsonString_fenced [OF b a(3) a(3) a(3) a(3), of fence, THEN conjunct2]
    by (simp add: fencedSample_def)
qed

section \<open>Quote images (services/geminiService.ts)\<close>

subsection \<open>The static fallback images\<close>

definition FALLBACK_IMAGES :: "jsstr list" where
  "FALLBACK_IMAGES =
     [js ''https://images.unsplash.com/photo-1485846234645-a62644f84728?q=80&w=720&auto=format&fit=crop'',
      js ''https://images.unsplash.com/photo-1519681393784-d120267933ba?q=80&w=720&auto=format&fit=crop'',
      js ''https://images.unsplash.com/photo-1500462918059-b1a0cb512f1d?q=80&w=720&auto=format&fit=crop'',
      js ''https://images.unsplash.com/photo-1478760329108-5c3ed9d495a0?q=80&w=720&auto=format&fit=crop'',
      js ''https://images.unsplash.com/photo-1550684848-fac1c5b4e853?q=80&w=720&auto=format&fit=crop'',
      js ''https://images.unsplash.com/photo-1534447677768-be436bb09401?q=80&w=720&auto=format&fit=crop'']"

text \<open>
  \<open>FALLBACK_IMAGES[Math.floor(Math.random() * FALLBACK_IMAGES.length)]\<close>, from the value
  \<open>r\<close> that \<open>Math.random()\<close> returned. The product is rounded to a double and then
  floored. Reading an array at an index that is not one of its positions gives
  \<open>undefined\<close>, here \<open>None\<close>.
\<close>

definition getRandomFallbackImage :: "real \<Rightarrow> jsstr option" where
  "getRandomFallbackImage r =
     (case jsTimes (Num r) (real (length FALLBACK_IMAGES)) of
        Num y \<Rightarrow>
          (let i = \<lfloor>y\<rfloor>
           in if 0 \<le> i \<and> i < int (length FALLBACK_IMAGES) then Some (FALLBACK_IMAGES ! nat i)
              else None)
      | _ \<Rightarrow> None)"

subsection \<open>What the services answer\<close>

text \<open>
  The response of \<open>generateContent\<close>, as far as the code reads it: the \<open>text\<close> (here
  \<open>text'\<close>) and \<open>candidates[0].content.parts[..].inlineData.data\<close>, every level of which
  may be missing.
\<close>

record blob =
  data :: "jsstr option"

record part =
  inlineData :: "blob option"

record content =
  parts :: "part list option"

record candidate =
  content :: "content option"

record genResponse =
  text' :: "jsstr option"
  candidates :: "candidate list option"

text \<open>The response of \<open>generateImages\<close>: \<open>generatedImages[0].image.imageBytes\<close>.\<close>

record imageObj =
  imageBytes :: "jsstr option"

record generatedImage =
  image' :: "imageObj option"

record imagesResponse =
  generatedImages :: "generatedImage list option"

text \<open>
  The answer of the Pexels search to \<open>fetch\<close>: the request fails, or there is a response
  with its \<open>ok\<close> flag and what \<open>response.json()\<close> gives (\<open>None\<close> when it rejects), read as
  \<open>data.photos[0].src.large2x\<close>.
\<close>

record pexelsSrc =
  large2x :: "jsstr option"

record pexelsPhoto =
  src :: "pexelsSrc option"

record pexelsData =
  photos :: "pexelsPhoto list option"

datatype fetchResult = FetchFailed | FetchResponse bool "pexelsData option"

text \<open>
  Everything outside the module that a call of \<open>generateQuoteImage\<close> depends on: the
  cached client and the two keys of \<open>process.env\<close> (a string or \<open>undefined\<close>); what
  the successive calls of each request settle with (the analysis and the description
  request of the text model for a quote text, the requests of the two image models for a
  prompt); the Pexels answer for each query; the value of \<open>Math.random()\<close>, a double
  that is at least 0 and below 1; and three
  things of the JavaScript engine: the string conversion of a number, an array or an
  object in a template literal, which can throw, and the errors thrown by \<open>JSON.parse\<close>
  and by reading a property of \<open>null\<close>.
\<close>

record env =
  aiInstance :: bool
  API_KEY :: "jsstr option"
  PEXELS_API_KEY :: "jsstr option"
  analysisCalls :: "jsstr \<Rightarrow> nat \<Rightarrow> genResponse outcome"
  imageCalls :: "jsstr \<Rightarrow> nat \<Rightarrow> genResponse outcome"
  descriptionCalls :: "jsstr \<Rightarrow> nat \<Rightarrow> genResponse outcome"
  imagenCalls :: "jsstr \<Rightarrow> nat \<Rightarrow> imagesResponse outcome"
  pexelsSearch :: "jsval \<Rightarrow> fetchResult"
  Math_random :: real
  toString :: "jsval \<Rightarrow> jserror + jsstr"
  syntaxError :: jserror
  typeError :: jserror

text \<open>\<open>new Error(m)\<close>.\<close>

definition Error :: "jsstr \<Rightarrow> jserror" where
  "Error m = \<lparr>message = Some m, code = None, status = None\<rparr>"

text \<open>
  \<open>getAiClient()\<close>: the cached instance if there is one; otherwise the guard on
  \<open>process.env.API_KEY\<close> (missing or empty), which throws; otherwise a new instance,
  which is cached.
\<close>

definition getAiClient :: "env \<Rightarrow> jserror + env" where
  "getAiClient e =
     (if aiInstance e then Inr e
      else if API_KEY e = None \<or> API_KEY e = Some [] then Inl (Error (js ''API_KEY_MISSING''))
      else Inr (e\<lparr>aiInstance := True\<rparr>))"

text \<open>
  \<open>fetchPexelsImage(query)\<close>: \<open>null\<close> (here \<open>None\<close>) without a key and whenever something
  in the \<open>try\<close> block throws: the request, a response that is not \<open>ok\<close>, \<open>json()\<close>, or
  reading \<open>large2x\<close> of a missing \<open>src\<close>. A missing \<open>large2x\<close> is returned as it is.
\<close>

definition fetchPexelsImage :: "env \<Rightarrow> jsval \<Rightarrow> jsstr option" where
  "fetchPexelsImage e query =
     (if PEXELS_API_KEY e = None \<or> PEXELS_API_KEY e = Some [] then None
      else (case pexelsSearch e query of
              FetchFailed \<Rightarrow> None
            | FetchResponse ok body \<Rightarrow>
                if \<not> ok then None
                else (case body of
                        None \<Rightarrow> None
                      | Some d \<Rightarrow>
                          (case photos d of
                             Some (p # ps) \<Rightarrow> (case src p of None \<Rightarrow> None | Some s \<Rightarrow> large2x s)
                           | _ \<Rightarrow> None))))"

text \<open>
  JavaScript truthiness. A number literal of JSON is false when it rounds to zero, that
  is when its magnitude is at most \<open>2 ^ -1075\<close>.
\<close>

fun truthy :: "jsval \<Rightarrow> bool" where
  "truthy VUndefined = False"
| "truthy VNull = False"
| "truthy (VBool b) = b"
| "truthy (VNum x) = (\<bar>x\<bar> > 1 / 2 ^ 1075)"
| "truthy (VStr s) = (s \<noteq> [])"
| "truthy (VArr vs) = True"
| "truthy (VObj ms) = True"

text \<open>
  Reading the property \<open>k\<close> of a value returned by \<open>JSON.parse\<close>, for a name \<open>k\<close> that
  no prototype defines: a \<open>TypeError\<close> (here \<open>None\<close>) on \<open>null\<close> and \<open>undefined\<close>, the
  last member with that key on an object, \<open>undefined\<close> otherwise.
\<close>

fun getProp :: "jsval \<Rightarrow> jsstr \<Rightarrow> jsval option" where
  "getProp VUndefined k = None"
| "getProp VNull k = None"
| "getProp (VObj ms) k = (case map_of (rev ms) k of None \<Rightarrow> Some VUndefined | Some v \<Rightarrow> Some v)"
| "getProp v k = Some VUndefined"

text \<open>
  The loop over \<open>response.candidates?.[0]?.content?.parts\<close>: the \<open>data\<close> of the first
  part that has a non-empty one.
\<close>

fun firstInlineData :: "part list \<Rightarrow> jsstr option" where
  "firstInlineData [] = None"
| "firstInlineData (p # ps) =
     (case inlineData p of
        None \<Rightarrow> firstInlineData ps
      | Some b \<Rightarrow>
          (case data b of
             None \<Rightarrow> firstInlineData ps
           | Some d \<Rightarrow> if d \<noteq> [] then Some d else firstInlineData ps))"

definition base64ImageBytes :: "genResponse \<Rightarrow> jsstr option" where
  "base64ImageBytes response =
     (case candidates response of
        Some (c # cs) \<Rightarrow>
          (case content c of
             None \<Rightarrow> None
           | Some ct \<Rightarrow> (case parts ct of None \<Rightarrow> None | Some ps \<Rightarrow> firstInlineData ps))
      | _ \<Rightarrow> None)"

text \<open>The string that a template literal puts in for a value.\<close>

definition templateString :: "env \<Rightarrow> jsval \<Rightarrow> jserror + jsstr" where
  "templateString e v =
     (case v of
        VStr s \<Rightarrow> Inr s
      | VUndefined \<Rightarrow> Inr (js ''undefined'')
      | VNull \<Rightarrow> Inr (js ''null'')
      | VBool b \<Rightarrow> Inr (if b then js ''true'' else js ''false'')
      | _ \<Rightarrow> toString e v)"

subsection \<open>\<open>generateQuoteImage\<close>, with the Pexels fallback\<close>

definition noImageDataError :: jserror where
  "noImageDataError = Error (js ''Dados de imagem n'' @ [0xE3] @ js ''o encontrados na resposta da IA.'')"

definition imagePromptSuffix :: jsstr where
  "imagePromptSuffix = js '', photorealistic, sharp focus, 8k, highly detailed, HD. NO TEXT, NO WATERMARKS, NO SIGNATURES, NO TYPOGRAPHY.''"

text \<open>
  The outer \<open>try\<close> block: the value of \<open>searchKeywords\<close> when the block is left, and
  either the value the block throws or the data URI it returns; \<open>None\<close> if a call of
  \<open>withRetry\<close> never settled. The inner \<open>catch\<close> rethrows what it catches.
\<close>

definition tryGenerate :: "env \<Rightarrow> jsstr \<Rightarrow> (jsval \<times> (jserror option + jsstr)) option" where
  "tryGenerate e quoteText =
     (let searchKeywords = VStr (js ''abstract nature'')
      in case withRetry_default (analysisCalls e quoteText) of
           None \<Rightarrow> None
         | Some (Reject error, events) \<Rightarrow> Some (searchKeywords, Inl error)
         | Some (Resolve promptAnalysisResponse, events) \<Rightarrow>
             (case JSON_parse (cleanJsonString (text' promptAnalysisResponse)) of
                None \<Rightarrow> Some (searchKeywords, Inl (Some (syntaxError e)))
              | Some analysisData \<Rightarrow>
                  (case getProp analysisData (js ''visual_prompt'') of
                     None \<Rightarrow> Some (searchKeywords, Inl (Some (typeError e)))
                   | Some visualPrompt \<Rightarrow>
                       (case getProp analysisData (js ''search_keywords'') of
                          None \<Rightarrow> Some (searchKeywords, Inl (Some (typeError e)))
                        | Some keywords \<Rightarrow>
                            let searchKeywords =
                                  (if truthy keywords then keywords
                                   else VStr (js ''nature abstract''))
                            in (case templateString e visualPrompt of
                                  Inl error \<Rightarrow> Some (searchKeywords, Inl (Some error))
                                | Inr prompt \<Rightarrow>
                                    (case withRetry_default
                                            (imageCalls e (prompt @ imagePromptSuffix)) of
                                       None \<Rightarrow> None
                                     | Some (Reject aiError, events') \<Rightarrow>
                                         Some (searchKeywords, Inl aiError)
                                     | Some (Resolve response, events') \<Rightarrow>
                                         (case base64ImageBytes response of
                                            None \<Rightarrow>
                                              Some (searchKeywords, Inl (Some noImageDataError))
                                          | Some bytes \<Rightarrow>
                                              Some (searchKeywords,
                                                Inr (js ''data:image/jpeg;base64,'' @ bytes)))))))))"

text \<open>
  The end of the \<open>catch\<close> block, after Pexels gave nothing: \<open>console.warn\<close> is passed
  \<open>error.message\<close>, which throws a \<open>TypeError\<close> when the caught value is \<open>null\<close> or
  \<open>undefined\<close>; otherwise a fallback image is returned.
\<close>

definition staticFallback :: "env \<Rightarrow> jserror option \<Rightarrow> jsstr option outcome" where
  "staticFallback e error =
     (case error of
        None \<Rightarrow> Reject (Some (typeError e))
      | Some err \<Rightarrow> Resolve (getRandomFallbackImage (Math_random e)))"

text \<open>
  \<open>generateQuoteImage(quoteText)\<close> of the version with the Pexels fallback (the first
  of the two versions of the service). \<open>getAiClient()\<close> is called before the \<open>try\<close>. The
  promise is fulfilled with a string, or with \<open>undefined\<close> (here \<open>None\<close>) if the fallback
  list were read out of bounds, or rejected; the result is \<open>None\<close> if it never settles.
\<close>

definition generateQuoteImage :: "env \<Rightarrow> jsstr \<Rightarrow> jsstr option outcome option" where
  "generateQuoteImage e quoteText =
     (case getAiClient e of
        Inl error \<Rightarrow> Some (Reject (Some error))
      | Inr e' \<Rightarrow>
          (case tryGenerate e' quoteText of
             None \<Rightarrow> None
           | Some (searchKeywords, Inr dataUri) \<Rightarrow> Some (Resolve (Some dataUri))
           | Some (searchKeywords, Inl error) \<Rightarrow>
               (case fetchPexelsImage e' searchKeywords of
                  None \<Rightarrow> Some (staticFallback e' error)
                | Some pexelsImage \<Rightarrow>
                    if pexelsImage \<noteq> [] then Some (Resolve (Some pexelsImage))
                    else Some (staticFallback e' error))))"

subsection \<open>\<open>generateQuoteImage\<close>, with Imagen and no stock photos\<close>

definition noImagenDataError :: jserror where
  "noImagenDataError = Error (js ''API de Imagem n'' @ [0xE3] @ js ''o retornou dados.'')"

definition imagenPrompt :: "jsstr \<Rightarrow> jsstr" where
  "imagenPrompt visualPrompt =
     js ''Cinematographic background wallpaper, '' @ visualPrompt @
     js ''. Soft focus, blurry background, negative space, moody lighting, 8k, photorealistic. NO TEXT, NO NUMBERS, NO WRITING, NO WATERMARKS, NO SIGNATURES.''"

definition imagenBytes :: "imagesResponse \<Rightarrow> jsstr option" where
  "imagenBytes response =
     (case generatedImages response of
        Some (g # gs) \<Rightarrow>
          (case image' g of
             None \<Rightarrow> None
           | Some im \<Rightarrow>
               (case imageBytes im of
                  None \<Rightarrow> None
                | Some bytes \<Rightarrow> if bytes \<noteq> [] then Some bytes else None))
      | _ \<Rightarrow> None)"

text \<open>
  The \<open>try\<close> block of the second version: the value it throws, or the string it
  returns, which is a fallback image when no visual prompt came back. Here
  \<open>getAiClient()\<close> is inside the block.
\<close>

definition tryImagen :: "env \<Rightarrow> jsstr \<Rightarrow> (jserror option + jsstr option) option" where
  "tryImagen e quoteText =
     (case getAiClient e of
        Inl error \<Rightarrow> Some (Inl (Some error))
      | Inr e' \<Rightarrow>
          (case withRetry_default (descriptionCalls e' quoteText) of
             None \<Rightarrow> None
           | Some (Reject error, events) \<Rightarrow> Some (Inl error)
           | Some (Resolve descriptionResponse, events) \<Rightarrow>
               let visualPrompt = map_option trim (text' descriptionResponse)
               in if visualPrompt = None \<or> visualPrompt = Some []
                  then Some (Inr (getRandomFallbackImage (Math_random e')))
                  else (case withRetry_default
                               (imagenCalls e' (imagenPrompt (the visualPrompt))) of
                          None \<Rightarrow> None
                        | Some (Reject error, events') \<Rightarrow> Some (Inl error)
                        | Some (Resolve response, events') \<Rightarrow>
                            (case imagenBytes response of
                               None \<Rightarrow> Some (Inl (Some noImagenDataError))
                             | Some bytes \<Rightarrow>
                                 Some (Inr (Some (js ''data:image/jpeg;base64,'' @ bytes)))))))"

text \<open>
  The second version: its \<open>catch\<close> block reads \<open>error.message\<close> as well, before it
  returns a fallback image.
\<close>

definition generateQuoteImage_imagen :: "env \<Rightarrow> jsstr \<Rightarrow> jsstr option outcome option" where
  "generateQuoteImage_imagen e quoteText =
     (case tryImagen e quoteText of
        None \<Rightarrow> None
      | Some (Inr result) \<Rightarrow> Some (Resolve result)
      | Some (Inl error) \<Rightarrow> Some (staticFallback e error))"

subsection \<open>The fallback chain\<close>

lemma length_FALLBACK_IMAGES: "length FALLBACK_IMAGES = 6"
  by (simp add: FALLBACK_IMAGES_def)

lemma FALLBACK_IMAGES_nonempty: "img \<in> set FALLBACK_IMAGES \<Longrightarrow> img \<noteq> []"
  by (auto simp: FALLBACK_IMAGES_def js_def)

text \<open>
  The index that the code computes from a double that is at least 0 and below 1 is one
  of the positions of the list.
\<close>

lemma random_index:
  assumes "isDouble r" and "0 \<le> r" and "r < 1"
  shows "\<exists>y. jsTimes (Num r) (real (length FALLBACK_IMAGES)) = Num y
           \<and> 0 \<le> \<lfloor>y\<rfloor> \<and> \<lfloor>y\<rfloor> < int (length FALLBACK_IMAGES)"
proof -
  obtain y where y: "round64 (r * 6) = Num y" "0 \<le> y" "y < 6"
    using round64_times_six [OF assms] by blast
  have "0 \<le> \<lfloor>y\<rfloor>" "\<lfloor>y\<rfloor> < 6"
    using y(2,3) by (simp_all add: floor_less_iff)
  then show ?thesis
    using y(1) by (simp add: jsTimes_def length_FALLBACK_IMAGES)
qed

lemma getRandomFallbackImage_member:
  assumes "isDouble r" and "0 \<le> r" and "r < 1"
  shows "\<exists>img. getRandomFallbackImage r = Some img \<and> img \<in> set FALLBACK_IMAGES \<and> img \<noteq> []"
proof -
  obtain y where y: "jsTimes (Num r) (real (length FALLBACK_IMAGES)) = Num y"
    "0 \<le> \<lfloor>y\<rfloor>" "\<lfloor>y\<rfloor> < int (length FALLBACK_IMAGES)"
    using random_index [OF assms] by blast
  have "nat \<lfloor>y\<rfloor> < length FALLBACK_IMAGES"
    using y(2,3) by linarith
  then have mem: "FALLBACK_IMAGES ! nat \<lfloor>y\<rfloor> \<in> set FALLBACK_IMAGES"
    by (rule nth_mem)
  have "getRandomFallbackImage r = Some (FALLBACK_IMAGES ! nat \<lfloor>y\<rfloor>)"
    using y by (simp add: getRandomFallbackImage_def)
  then show ?thesis
    using mem FALLBACK_IMAGES_nonempty by blast
qed

text \<open>
  The double \<open>0.8333333333333333\<close>, which is \<open>7505999378950826 / 2 ^ 53\<close>: the exact
  product with 6 is below 5 and the rounded product is 5.
\<close>

lemma random_index_rounded: "jsTimes (Num (7505999378950826 / 2 ^ 53)) 6 = Num 5"
proof -
  let ?x = "7505999378950826 / 2 ^ 53 * 6 :: real"
  have e: "\<lfloor>log 2 \<bar>?x\<bar>\<rfloor> = 2"
  proof -
    have "\<lfloor>log 2 ?x\<rfloor> = 2"
      by (rule floor_log2_eq) (simp_all add: powr_realpow [symmetric])
    then show ?thesis by simp
  qed
  have ulp: "1 / 2 ^ 50 = (2::real) powr of_int (max \<lfloor>log 2 \<bar>?x\<bar>\<rfloor> (- 1022) - 52)"
    unfolding e by (simp add: powr_minus powr_realpow [symmetric] inverse_eq_divide)
  have r: "roundHalfEven (?x / (1 / 2 ^ 50)) = 5 * 2 ^ 50"
  proof -
    have f: "\<lfloor>?x / (1 / 2 ^ 50)\<rfloor> = 5 * 2 ^ 50 - 1"
      by (simp add: floor_eq_iff)
    show ?thesis
      unfolding roundHalfEven_def Let_def f by simp
  qed
  have y: "(5::real) = of_int (roundHalfEven (?x / (1 / 2 ^ 50))) * (1 / 2 ^ 50)"
    unfolding r by simp
  have "?x \<noteq> 0" by simp
  then have "round64 ?x =
      (if 2 ^ 1024 \<le> \<bar>5 :: real\<bar> then (if (5::real) < 0 then NegInf else PosInf) else Num 5)"
    using ulp y by (rule round64_eq)
  then show ?thesis
    by (simp add: jsTimes_def)
qed

text \<open>A client can be obtained: one is cached, or the key is a non-empty string.\<close>

definition clientAvailable :: "env \<Rightarrow> bool" where
  "clientAvailable e \<longleftrightarrow> aiInstance e \<or> (API_KEY e \<noteq> None \<and> API_KEY e \<noteq> Some [])"

lemma getAiClient_available: "clientAvailable e \<Longrightarrow> getAiClient e = Inr (e\<lparr>aiInstance := True\<rparr>)"
  by (auto simp: clientAvailable_def getAiClient_def)

lemma getAiClient_missing:
  "\<not> clientAvailable e \<Longrightarrow> getAiClient e = Inl (Error (js ''API_KEY_MISSING''))"
  by (auto simp: clientAvailable_def getAiClient_def)

text \<open>Only \<open>getAiClient\<close> reads the cached client.\<close>

lemma templateString_aiInstance: "templateString (e\<lparr>aiInstance := b\<rparr>) v = templateString e v"
  by (simp add: templateString_def split: jsval.splits)

lemma tryGenerate_aiInstance: "tryGenerate (e\<lparr>aiInstance := b\<rparr>) q = tryGenerate e q"
  by (simp add: tryGenerate_def templateString_aiInstance
      cong: outcome.case_cong option.case_cong sum.case_cong prod.case_cong)

lemma fetchPexelsImage_aiInstance: "fetchPexelsImage (e\<lparr>aiInstance := b\<rparr>) kw = fetchPexelsImage e kw"
  by (simp add: fetchPexelsImage_def)

lemma staticFallback_aiInstance: "staticFallback (e\<lparr>aiInstance := b\<rparr>) error = staticFallback e error"
  by (simp add: staticFallback_def split: option.splits)

lemma generateQuoteImage_available:
  assumes "clientAvailable e"
  shows "generateQuoteImage e q =
     (case tryGenerate e q of
        None \<Rightarrow> None
      | Some (searchKeywords, Inr dataUri) \<Rightarrow> Some (Resolve (Some dataUri))
      | Some (searchKeywords, Inl error) \<Rightarrow>
          (case fetchPexelsImage e searchKeywords of
             None \<Rightarrow> Some (staticFallback e error)
           | Some pexelsImage \<Rightarrow>
               if pexelsImage \<noteq> [] then Some (Resolve (Some pexelsImage))
               else Some (staticFallback e error)))"
  by (simp add: generateQuoteImage_def getAiClient_available [OF assms]
      tryGenerate_aiInstance fetchPexelsImage_aiInstance staticFallback_aiInstance
      split: prod.splits sum.splits option.splits)

text \<open>With the default budget, \<open>withRetry\<close> settles, and rejects only as a call did.\<close>

lemma withRetry_default_not_None: "withRetry_default operation \<noteq> None"
  using withRetry_default_settles [of operation] by auto

lemma withRetry_default_rejects:
  "withRetry_default operation = Some (Reject error, events) \<Longrightarrow> \<exists>j. operation j = Reject error"
  using withRetry_default_settles [of operation] by auto

lemma withRetry_default_first:
  "\<not> transientFailure (operation 0) \<Longrightarrow> withRetry_default operation = Some (operation 0, [Call 0])"
  by (simp add: withRetry_default_def withRetry_stop)

lemma tryGenerate_settles: "tryGenerate e q \<noteq> None"
  by (auto simp: tryGenerate_def Let_def withRetry_default_not_None
      split: outcome.splits option.splits sum.splits prod.splits)

lemma tryGenerate_dataUri: "tryGenerate e q = Some (kw, Inr uri) \<Longrightarrow> uri \<noteq> []"
  by (auto simp: tryGenerate_def Let_def js_def
      split: outcome.splits option.splits sum.splits prod.splits if_splits)

lemma tryGenerate_thrown:
  assumes "\<forall>k. analysisCalls e q k \<noteq> Reject None" and "\<forall>p k. imageCalls e p k \<noteq> Reject None"
    and "tryGenerate e q = Some (kw, Inl error)"
  shows "error \<noteq> None"
proof
  assume none: "error = None"
  have a: "\<And>events. withRetry_default (analysisCalls e q) \<noteq> Some (Reject None, events)"
    using assms(1) withRetry_default_rejects by blast
  have b: "\<And>p events. withRetry_default (imageCalls e p) \<noteq> Some (Reject None, events)"
    using assms(2) withRetry_default_rejects by blast
  show False
    using assms(3) a b unfolding none
    by (auto simp: tryGenerate_def Let_def
        split: outcome.splits option.splits sum.splits prod.splits if_splits)
qed

lemma getAiClient_same:
  "getAiClient e = Inr e' \<Longrightarrow>
   Math_random e' = Math_random e \<and> descriptionCalls e' = descriptionCalls e
   \<and> imagenCalls e' = imagenCalls e"
  by (auto simp: getAiClient_def split: if_splits)

lemma tryImagen_settles: "tryImagen e q \<noteq> None"
  by (auto simp: tryImagen_def Let_def withRetry_default_not_None
      split: outcome.splits option.splits sum.splits prod.splits)

lemma tryImagen_thrown:
  assumes "\<forall>k. descriptionCalls e q k \<noteq> Reject None" and "\<forall>p k. imagenCalls e p k \<noteq> Reject None"
    and "tryImagen e q = Some (Inl error)"
  shows "error \<noteq> None"
proof
  assume none: "error = None"
  have a: "\<And>e' events. getAiClient e = Inr e' \<Longrightarrow>
      withRetry_default (descriptionCalls e' q) \<noteq> Some (Reject None, events)"
    using assms(1) withRetry_default_rejects getAiClient_same by metis
  have b: "\<And>e' p events. getAiClient e = Inr e' \<Longrightarrow>
      withRetry_default (imagenCalls e' p) \<noteq> Some (Reject None, events)"
    using assms(2) withRetry_default_rejects getAiClient_same by metis
  show False
    using assms(3) a b unfolding none
    by (auto simp: tryImagen_def Let_def
        split: outcome.splits option.splits sum.splits prod.splits if_splits)
qed

lemma tryImagen_nonempty:
  assumes "isDouble (Math_random e)" and "0 \<le> Math_random e" and "Math_random e < 1"
    and "tryImagen e q = Some (Inr result)"
  shows "\<exists>s. result = Some s \<and> s \<noteq> []"
proof -
  have fb: "\<And>e'. Math_random e' = Math_random e \<Longrightarrow>
      \<exists>s. getRandomFallbackImage (Math_random e') = Some s \<and> s \<noteq> []"
    using getRandomFallbackImage_member [OF assms(1-3)] by auto
  have same: "\<And>e'. getAiClient e = Inr e' \<Longrightarrow> Math_random e' = Math_random e"
    using getAiClient_same by blast
  show ?thesis
    using assms(4) fb same
    by (auto simp: tryImagen_def Let_def js_def
        split: outcome.splits option.splits sum.splits prod.splits if_splits)
qed

subsection \<open>A sample environment\<close>

definition analysisText :: jsstr where
  "analysisText = fenceJson @ [0x0A] @ js ''{'' @ dq @ js ''visual_prompt'' @ dq @ js '': '' @ dq
     @ js ''A calm sea'' @ dq @ js '', '' @ dq @ js ''search_keywords'' @ dq @ js '': '' @ dq
     @ js ''calm sea'' @ dq @ js ''}'' @ [0x0A] @ fence"

definition pexelsUrl :: jsstr where
  "pexelsUrl = js ''https://images.pexels.com/photos/1/sea.jpeg''"

text \<open>
  The key is set, the analysis answers with a fenced JSON object, the image model is
  overloaded at every call, and Pexels has a photo for the keywords of the analysis.
\<close>

definition sampleEnv :: env where
  "sampleEnv =
     \<lparr>aiInstance = False, API_KEY = Some (js ''key''), PEXELS_API_KEY = Some (js ''pexels''),
      analysisCalls = (\<lambda>q k. Resolve \<lparr>text' = Some analysisText, candidates = None\<rparr>),
      imageCalls = (\<lambda>p k. Reject (Some overloadedError)),
      descriptionCalls = (\<lambda>q k. Reject (Some quotaError)),
      imagenCalls = (\<lambda>p k. Reject (Some quotaError)),
      pexelsSearch = (\<lambda>query. if query = VStr (js ''calm sea'')
         then FetchResponse True
                (Some \<lparr>photos = Some [\<lparr>src = Some \<lparr>large2x = Some pexelsUrl\<rparr>\<rparr>]\<rparr>)
         else FetchFailed),
      Math_random = 1 / 2,
      toString = (\<lambda>v. Inr (js ''[object Object]'')),
      syntaxError = Error (js ''Unexpected token''),
      typeError = Error (js ''Cannot read properties of undefined'')\<rparr>"

text \<open>
  The same, except that the analysis request is rejected with \<open>undefined\<close> and that there
  is no Pexels key, so that \<open>fetchPexelsImage\<close> returns \<open>null\<close>.
\<close>

definition undefinedRejection :: env where
  "undefinedRejection =
     sampleEnv\<lparr>analysisCalls := (\<lambda>q k. Reject None), PEXELS_API_KEY := None\<rparr>"

lemma analysisText_clean:
  "cleanJsonString (Some analysisText) = js ''{'' @ dq @ js ''visual_prompt'' @ dq @ js '': '' @ dq
     @ js ''A calm sea'' @ dq @ js '', '' @ dq @ js ''search_keywords'' @ dq @ js '': '' @ dq
     @ js ''calm sea'' @ dq @ js ''}''"
  by (simp add: analysisText_def cleanJsonString_def fenceJson_def fence_def dq_def js_def
      trim_def startsWith_def endsWith_def replaceAtStart_def replaceAtEnd_def isWhiteSpace_def)

lemma analysisText_tokens:
  "tokenize (cleanJsonString (Some analysisText)) =
     Some [TLBrace, TString (js ''visual_prompt''), TColon, TString (js ''A calm sea''), TComma,
           TString (js ''search_keywords''), TColon, TString (js ''calm sea''), TRBrace]"
  unfolding analysisText_clean
  by (simp add: dq_def js_def tokenize.simps nextToken_def isJsonWs_def)

lemma analysisText_parse:
  "JSON_parse (cleanJsonString (Some analysisText)) =
     Some (VObj [(js ''visual_prompt'', VStr (js ''A calm sea'')),
                 (js ''search_keywords'', VStr (js ''calm sea''))])"
  by (simp add: JSON_parse_def analysisText_tokens eval_nat_numeral)

lemma always_overloaded:
  "\<exists>events. withRetry_default (\<lambda>k. Reject (Some overloadedError)) =
             Some (Reject (Some overloadedError), events)"
  using withRetry_default_settles [of "\<lambda>k. Reject (Some overloadedError)"] by simp

lemma round64_half: "round64 (1 / 2) = Num (1 / 2)"
proof -
  have e: "\<lfloor>log 2 \<bar>1 / 2 :: real\<bar>\<rfloor> = - 1"
  proof -
    have "\<lfloor>log 2 (1 / 2 :: real)\<rfloor> = - 1"
      by (rule floor_log2_eq) (simp_all add: powr_minus)
    then show ?thesis by simp
  qed
  have ulp: "1 / 2 ^ 53 = (2::real) powr of_int (max \<lfloor>log 2 \<bar>1 / 2 :: real\<bar>\<rfloor> (- 1022) - 52)"
    unfolding e by (simp add: powr_minus powr_realpow [symmetric] inverse_eq_divide)
  have q: "(1 / 2) / (1 / 2 ^ 53) = (of_int (2 ^ 52) :: real)"
    by simp
  have r: "roundHalfEven ((1 / 2) / (1 / 2 ^ 53)) = 2 ^ 52"
    unfolding q by (rule roundHalfEven_int)
  have y: "(1 / 2 :: real) = of_int (roundHalfEven ((1 / 2) / (1 / 2 ^ 53))) * (1 / 2 ^ 53)"
    unfolding r by simp
  have "(1 / 2 :: real) \<noteq> 0" by simp
  then have "round64 (1 / 2) =
      (if 2 ^ 1024 \<le> \<bar>1 / 2 :: real\<bar> then (if (1 / 2 :: real) < 0 then NegInf else PosInf)
       else Num (1 / 2))"
    using ulp y by (rule round64_eq)
  then show ?thesis by simp
qed

lemma sample_random:
  "isDouble (Math_random sampleEnv)" "0 \<le> Math_random sampleEnv" "Math_random sampleEnv < 1"
  by (simp_all add: sampleEnv_def isDouble_def round64_half)

lemma sample_fallback: "getRandomFallbackImage (1 / 2) = Some (FALLBACK_IMAGES ! 3)"
proof -
  have "round64 (real 3) = Num (real 3)"
    by (rule round64_nat) simp
  then have "jsTimes (Num (1 / 2)) (real (length FALLBACK_IMAGES)) = Num 3"
    by (simp add: jsTimes_def length_FALLBACK_IMAGES)
  then show ?thesis
    by (simp add: getRandomFallbackImage_def length_FALLBACK_IMAGES)
qed

lemma sample_tryGenerate:
  "tryGenerate sampleEnv q = Some (VStr (js ''calm sea''), Inl (Some overloadedError))"
proof -
  have first: "withRetry_default (analysisCalls sampleEnv q) =
      Some (Resolve \<lparr>text' = Some analysisText, candidates = None\<rparr>, [Call 0])"
    by (simp add: withRetry_default_first sampleEnv_def transientFailure_def)
  obtain events where image:
    "withRetry_default (\<lambda>k. Reject (Some overloadedError) :: genResponse outcome) =
       Some (Reject (Some overloadedError), events)"
    using always_overloaded by blast
  have calls: "\<And>p. imageCalls sampleEnv p = (\<lambda>k. Reject (Some overloadedError))"
    by (simp add: sampleEnv_def)
  have ne: "js ''calm sea'' \<noteq> []"
    by (simp add: js_def)
  have props: "getProp (VObj [(js ''visual_prompt'', VStr (js ''A calm sea'')),
                 (js ''search_keywords'', VStr (js ''calm sea''))]) (js ''visual_prompt'')
               = Some (VStr (js ''A calm sea''))"
    "getProp (VObj [(js ''visual_prompt'', VStr (js ''A calm sea'')),
                 (js ''search_keywords'', VStr (js ''calm sea''))]) (js ''search_keywords'')
               = Some (VStr (js ''calm sea''))"
    by (simp_all add: js_def)
  show ?thesis
    by (simp add: tryGenerate_def first analysisText_parse props ne calls image templateString_def)
qed

lemma sample_available: "clientAvailable sampleEnv"
  by (simp add: clientAvailable_def sampleEnv_def js_def)

lemma pexelsUrl_nonempty: "pexelsUrl \<noteq> []"
  by (simp add: pexelsUrl_def js_def)

lemma sample_pexels: "fetchPexelsImage sampleEnv (VStr (js ''calm sea'')) = Some pexelsUrl"
  by (simp add: fetchPexelsImage_def sampleEnv_def js_def)

lemma undefined_tryGenerate:
  "tryGenerate undefinedRejection q = Some (VStr (js ''abstract nature''), Inl None)"
proof -
  have "withRetry_default (analysisCalls undefinedRejection q) = Some (Reject None, [Call 0])"
    by (simp add: withRetry_default_first undefinedRejection_def transientFailure_def
        not_isOverloaded_undefined)
  then show ?thesis
    by (simp add: tryGenerate_def)
qed

subsection \<open>The claims on the image\<close>

text \<open>
  C2: when a client is available, the \<open>try\<close> block of \<open>generateQuoteImage\<close> fails (the
  analysis or the image generation throws) and \<open>fetchPexelsImage\<close>, called with the
  search keywords at that point, returns a non-empty URL, the promise is fulfilled with
  that URL.
\<close>

theorem generateQuoteImage_stock_photo:
  assumes "clientAvailable e"
    and "tryGenerate e quoteText = Some (searchKeywords, Inl error)"
    and "fetchPexelsImage e searchKeywords = Some url" and "url \<noteq> []"
  shows "generateQuoteImage e quoteText = Some (Resolve (Some url))"
  using assms(2-4) by (simp add: generateQuoteImage_available [OF assms(1)])

theorem generateQuoteImage_stock_photo_witness:
  "generateQuoteImage sampleEnv (js ''Panta rhei'') = Some (Resolve (Some pexelsUrl))
   \<and> pexelsUrl \<notin> set FALLBACK_IMAGES"
proof -
  have "pexelsUrl \<notin> set FALLBACK_IMAGES"
    by (simp add: pexelsUrl_def FALLBACK_IMAGES_def js_def)
  then show ?thesis
    using generateQuoteImage_stock_photo [OF sample_available sample_tryGenerate sample_pexels
        pexelsUrl_nonempty]
    by simp
qed

text \<open>
  C6 says that when the \<open>try\<close> block fails and \<open>fetchPexelsImage\<close> returns nothing, the
  promise is fulfilled with an entry of \<open>FALLBACK_IMAGES\<close>. The index is in bounds (lemma
  \<open>random_index\<close>), but the fallback is not always reached: with a client available, the
  analysis request rejected with \<open>undefined\<close> and no photo from Pexels, the \<open>catch\<close> block
  reads \<open>error.message\<close> of \<open>undefined\<close> for its warning, and the promise is rejected with
  the \<open>TypeError\<close> of that read.
\<close>

theorem generateQuoteImage_undefined_rejection:
  "clientAvailable undefinedRejection
   \<and> tryGenerate undefinedRejection (js ''Panta rhei'')
       = Some (VStr (js ''abstract nature''), Inl None)
   \<and> fetchPexelsImage undefinedRejection (VStr (js ''abstract nature'')) = None
   \<and> generateQuoteImage undefinedRejection (js ''Panta rhei'')
       = Some (Reject (Some (Error (js ''Cannot read properties of undefined''))))"
proof -
  have a: "clientAvailable undefinedRejection"
    by (simp add: clientAvailable_def undefinedRejection_def sampleEnv_def js_def)
  have p: "fetchPexelsImage undefinedRejection (VStr (js ''abstract nature'')) = None"
    by (simp add: fetchPexelsImage_def undefinedRejection_def)
  have t: "typeError undefinedRejection = Error (js ''Cannot read properties of undefined'')"
    by (simp add: undefinedRejection_def sampleEnv_def)
  show ?thesis
    using a p t undefined_tryGenerate [of "js ''Panta rhei''"]
    by (simp add: generateQuoteImage_available [OF a] staticFallback_def)
qed

text \<open>
  C8, as stated: \<open>generateQuoteImage\<close> never rejects. The version with the Pexels fallback
  calls \<open>getAiClient()\<close> before its \<open>try\<close>: with no cached client and no API key it
  rejects with \<open>API_KEY_MISSING\<close>, before any external call.
\<close>

theorem generateQuoteImage_rejects_counterexample:
  "generateQuoteImage (sampleEnv\<lparr>API_KEY := None\<rparr>) (js ''Panta rhei'')
     = Some (Reject (Some (Error (js ''API_KEY_MISSING''))))"
  by (simp add: generateQuoteImage_def getAiClient_def sampleEnv_def)

text \<open>
  C8, amended: for every quote text and every outcome of the external calls in which no
  request of the AI client is rejected with \<open>null\<close> or \<open>undefined\<close> (with \<open>Math.random()\<close>
  a double that is at least 0 and below 1), if a client can be obtained (one is cached or
  the API key is a non-empty string) the version with the Pexels fallback fulfils its
  promise with a non-empty string, and otherwise it rejects with \<open>API_KEY_MISSING\<close>; the
  Imagen version, which calls \<open>getAiClient()\<close> inside its \<open>try\<close>, fulfils its promise with
  a non-empty string in every such case.
\<close>

theorem generateQuoteImage_settles:
  assumes "isDouble (Math_random e)" and "0 \<le> Math_random e" and "Math_random e < 1"
    and "\<forall>q k. analysisCalls e q k \<noteq> Reject None"
    and "\<forall>p k. imageCalls e p k \<noteq> Reject None"
    and "\<forall>q k. descriptionCalls e q k \<noteq> Reject None"
    and "\<forall>p k. imagenCalls e p k \<noteq> Reject None"
  shows "(clientAvailable e \<longrightarrow>
            (\<exists>s. generateQuoteImage e quoteText = Some (Resolve (Some s)) \<and> s \<noteq> []))
       \<and> (\<not> clientAvailable e \<longrightarrow>
            generateQuoteImage e quoteText = Some (Reject (Some (Error (js ''API_KEY_MISSING'')))))
       \<and> (\<exists>s. generateQuoteImage_imagen e quoteText = Some (Resolve (Some s)) \<and> s \<noteq> [])"
proof (intro conjI impI)
  obtain fb where fb: "getRandomFallbackImage (Math_random e) = Some fb" "fb \<noteq> []"
    using getRandomFallbackImage_member [OF assms(1-3)] by blast
  {
    assume avail: "clientAvailable e"
    obtain kw r where t: "tryGenerate e quoteText = Some (kw, r)"
      using tryGenerate_settles [of e quoteText] by (cases "tryGenerate e quoteText") auto
    show "\<exists>s. generateQuoteImage e quoteText = Some (Resolve (Some s)) \<and> s \<noteq> []"
    proof (cases r)
      case (Inr uri)
      then show ?thesis
        using t tryGenerate_dataUri [of e quoteText kw uri]
        by (simp add: generateQuoteImage_available [OF avail])
    next
      case (Inl error)
      have "error \<noteq> None"
        using tryGenerate_thrown [of e quoteText kw error] assms(4,5) t Inl by simp
      then obtain err where "error = Some err"
        by (cases error) auto
      then show ?thesis
        using t fb Inl
        by (cases "fetchPexelsImage e kw")
          (simp_all add: generateQuoteImage_available [OF avail] staticFallback_def)
    qed
  }
  {
    assume "\<not> clientAvailable e"
    then show "generateQuoteImage e quoteText
               = Some (Reject (Some (Error (js ''API_KEY_MISSING''))))"
      by (simp add: generateQuoteImage_def getAiClient_missing)
  }
  show "\<exists>s. generateQuoteImage_imagen e quoteText = Some (Resolve (Some s)) \<and> s \<noteq> []"
  proof -
    obtain r where t: "tryImagen e quoteText = Some r"
      using tryImagen_settles [of e quoteText] by (cases "tryImagen e quoteText") auto
    show ?thesis
    proof (cases r)
      case (Inl error)
      have "error \<noteq> None"
        using tryImagen_thrown [of e quoteText error] assms(6,7) t Inl by simp
      then obtain err where "error = Some err"
        by (cases error) auto
      then show ?thesis
        using t fb Inl by (simp add: generateQuoteImage_imagen_def staticFallback_def)
    next
      case (Inr result)
      then show ?thesis
        using tryImagen_nonempty [OF assms(1-3), of quoteText result] t
        by (auto simp: generateQuoteImage_imagen_def)
    qed
  qed
qed

theorem generateQuoteImage_settles_witness:
  "generateQuoteImage sampleEnv (js ''Panta rhei'') = Some (Resolve (Some pexelsUrl))
   \<and> generateQuoteImage (sampleEnv\<lparr>API_KEY := None\<rparr>) (js ''Panta rhei'')
       = Some (Reject (Some (Error (js ''API_KEY_MISSING''))))
   \<and> generateQuoteImage_imagen sampleEnv (js ''Panta rhei'')
       = Some (Resolve (Some (FALLBACK_IMAGES ! 3)))
   \<and> generateQuoteImage_imagen (sampleEnv\<lparr>API_KEY := None\<rparr>) (js ''Panta rhei'')
       = Some (Resolve (Some (FALLBACK_IMAGES ! 3)))"
proof -
  let ?n = "sampleEnv\<lparr>API_KEY := None\<rparr>"
  have r: "isDouble (Math_random ?n)" "0 \<le> Math_random ?n" "Math_random ?n < 1"
    using sample_random by simp_all
  have calls: "\<forall>q k. analysisCalls sampleEnv q k \<noteq> Reject None"
    "\<forall>p k. imageCalls sampleEnv p k \<noteq> Reject None"
    "\<forall>q k. descriptionCalls sampleEnv q k \<noteq> Reject None"
    "\<forall>p k. imagenCalls sampleEnv p k \<noteq> Reject None"
    by (simp_all add: sampleEnv_def)
  have calls': "\<forall>q k. analysisCalls ?n q k \<noteq> Reject None"
    "\<forall>p k. imageCalls ?n p k \<noteq> Reject None"
    "\<forall>q k. descriptionCalls ?n q k \<noteq> Reject None"
    "\<forall>p k. imagenCalls ?n p k \<noteq> Reject None"
    using calls by simp_all
  have nokey: "\<not> clientAvailable ?n"
    by (simp add: clientAvailable_def sampleEnv_def)
  have a: "generateQuoteImage sampleEnv (js ''Panta rhei'') = Some (Resolve (Some pexelsUrl))"
    using sample_tryGenerate [of "js ''Panta rhei''"] sample_pexels pexelsUrl_nonempty
    by (simp add: generateQuoteImage_available [OF sample_available])
  have quota: "withRetry_default (\<lambda>k. Reject (Some quotaError) :: genResponse outcome)
               = Some (Reject (Some quotaError), [Call 0])"
    by (simp add: withRetry_default_first transientFailure_def not_isOverloaded_quotaError)
  have b: "generateQuoteImage_imagen sampleEnv (js ''Panta rhei'')
           = Some (Resolve (Some (FALLBACK_IMAGES ! 3)))"
    using sample_fallback quota
    by (simp add: generateQuoteImage_imagen_def tryImagen_def getAiClient_def sampleEnv_def js_def
        staticFallback_def)
  have c: "generateQuoteImage_imagen ?n (js ''Panta rhei'')
           = Some (Resolve (Some (FALLBACK_IMAGES ! 3)))"
    using sample_fallback
    by (simp add: generateQuoteImage_imagen_def tryImagen_def getAiClient_def sampleEnv_def
        staticFallback_def)
  show ?thesis
    using generateQuoteImage_settles [OF sample_random calls, of "js ''Panta rhei''"]
      generateQuoteImage_settles [OF r calls', of "js ''Panta rhei''"]
      sample_available nokey a b c
    by simp
qed

end
